theory Spec2Isabelle
  imports Complex_Main
begin

section \<open>Data model (src/lib/db.ts, src/lib/rateLimiter.ts)\<close>

text \<open>
  \<^verbatim>\<open>export type RuleType = 'GENERAL' | 'IP' | 'API';\<close>
\<close>

datatype RuleType = GENERAL | IP | API

text \<open>
  \<^verbatim>\<open>interface RateLimitRule\<close>: a row of the table \<^verbatim>\<open>rate_limit_rules\<close>. The columns
  \<^verbatim>\<open>limit\<close> and \<^verbatim>\<open>window_seconds\<close> are SQL INTEGERs; \<^verbatim>\<open>api_pattern\<close> is
  \<^verbatim>\<open>string | null\<close>. The column \<^verbatim>\<open>created_at\<close> is never read by the limiter and is
  left out.
\<close>

record RateLimitRule =
  rule_id :: string
  tenant_id :: string
  rule_type :: RuleType
  limit :: int
  window_seconds :: int
  api_pattern :: "string option"

text \<open>
  \<^verbatim>\<open>interface RateLimitResult\<close>: every field but \<^verbatim>\<open>allowed\<close> is optional; an absent
  field is \<open>None\<close>. The field \<^verbatim>\<open>limit\<close> of the result is named \<open>result_limit\<close>, since
  \<open>limit\<close> is the rule's column.
\<close>

record RateLimitResult =
  allowed :: bool
  result_limit :: "int option"
  remaining :: "int option"
  resetTime :: "int option"
  message :: "string option"

text \<open>Values a promise of the limiter's collaborators can reject with.\<close>

datatype error = STORE_UNAVAILABLE | SYNTAX_ERROR

section \<open>The environment: clock, rule store, counter store\<close>

text \<open>
  The limiter reads the wall clock (\<^verbatim>\<open>Date.now()\<close>, milliseconds since the epoch),
  queries PostgreSQL and sends commands to Redis. The environment is one explicit value:
  \<^item> \<open>clock w n\<close> is what the \<open>n\<close>-th reading of \<^verbatim>\<open>Date.now()\<close> returns, and
    \<open>clock_reads\<close> counts the readings made so far;
  \<^item> \<open>faults w n\<close> tells whether the \<open>n\<close>-th call to a store (a query, an INCR, an
    EXPIRE) is rejected, and \<open>io_calls\<close> counts the calls made so far, so that every
    pattern of outages is an environment;
  \<^item> \<open>db_rows w t\<close> is the list of rows the query for tenant \<open>t\<close> returns, and
    \<open>db_log\<close> lists the tenants queried, oldest first;
  \<^item> \<open>redis_kv\<close> holds the counters, \<open>redis_ttl\<close> the time to live last attached to a
    key, and \<open>redis_log\<close> lists the commands sent, oldest first. The store deleting a key
    when its time to live runs out happens between calls and is not part of a call.
\<close>

datatype redis_cmd = INCR string | EXPIRE string int

record world =
  clock :: "nat \<Rightarrow> nat"
  clock_reads :: nat
  faults :: "nat \<Rightarrow> bool"
  io_calls :: nat
  db_rows :: "string \<Rightarrow> RateLimitRule list"
  db_log :: "string list"
  redis_kv :: "string \<rightharpoonup> int"
  redis_ttl :: "string \<rightharpoonup> int"
  redis_log :: "redis_cmd list"

text \<open>\<^verbatim>\<open>Date.now()\<close>\<close>

definition Date_now :: "world \<Rightarrow> nat \<times> world" where
  "Date_now w = (clock w (clock_reads w), w\<lparr>clock_reads := Suc (clock_reads w)\<rparr>)"

text \<open>
  \<^verbatim>\<open>query('SELECT * FROM rate_limit_rules WHERE tenant_id = $1', [tenantId])\<close>
  followed by \<^verbatim>\<open>result.rows\<close> (src/lib/db.ts).
\<close>

definition query :: "string \<Rightarrow> world \<Rightarrow> (error + RateLimitRule list) \<times> world" where
  "query tenantId w =
     (let w1 = w\<lparr>io_calls := Suc (io_calls w), db_log := db_log w @ [tenantId]\<rparr>
      in if faults w (io_calls w) then (Inl STORE_UNAVAILABLE, w1)
         else (Inr (db_rows w tenantId), w1))"

text \<open>\<^verbatim>\<open>redis.incr(key)\<close>: an absent key counts as 0.\<close>

definition redis_incr :: "string \<Rightarrow> world \<Rightarrow> (error + int) \<times> world" where
  "redis_incr key w =
     (let w1 = w\<lparr>io_calls := Suc (io_calls w), redis_log := redis_log w @ [INCR key]\<rparr>
      in if faults w (io_calls w) then (Inl STORE_UNAVAILABLE, w1)
         else (let n = (case redis_kv w key of None \<Rightarrow> 0 | Some v \<Rightarrow> v) + 1
               in (Inr n, w1\<lparr>redis_kv := (redis_kv w)(key \<mapsto> n)\<rparr>)))"

text \<open>\<^verbatim>\<open>redis.expire(key, ttl)\<close>: attaches a time to live to an existing key.\<close>

definition redis_expire :: "string \<Rightarrow> int \<Rightarrow> world \<Rightarrow> (error + unit) \<times> world" where
  "redis_expire key ttl w =
     (let w1 = w\<lparr>io_calls := Suc (io_calls w), redis_log := redis_log w @ [EXPIRE key ttl]\<rparr>
      in if faults w (io_calls w) then (Inl STORE_UNAVAILABLE, w1)
         else if redis_kv w key = None then (Inr (), w1)
         else (Inr (), w1\<lparr>redis_ttl := (redis_ttl w)(key \<mapsto> ttl)\<rparr>))"

section \<open>The counter store adapter (src/lib/redis.ts)\<close>

text \<open>
  \<^verbatim>\<open>
  export async function incrementCounter(key: string, ttl: number): Promise<number> {
    const count = await redis.incr(key);
    if (count === 1) { await redis.expire(key, ttl); }
    return count;
  }
  \<close>
\<close>

definition incrementCounter :: "string \<Rightarrow> int \<Rightarrow> world \<Rightarrow> (error + int) \<times> world" where
  "incrementCounter key ttl w =
     (case redis_incr key w of
        (Inl e, w1) \<Rightarrow> (Inl e, w1)
      | (Inr count, w1) \<Rightarrow>
          if count = 1
          then (case redis_expire key ttl w1 of
                  (Inl e, w2) \<Rightarrow> (Inl e, w2)
                | (Inr _, w2) \<Rightarrow> (Inr count, w2))
          else (Inr count, w1))"

section \<open>Numbers and rule kinds in template literals\<close>

text \<open>
  A template literal prints an integer in decimal, with a leading minus sign when it is
  negative (for magnitudes below \<open>10\<^sup>2\<^sup>1\<close>, which covers SQL INTEGERs and window indices).
\<close>

definition digit_char :: "nat \<Rightarrow> char" where
  "digit_char d = char_of (48 + d)"

fun show_nat :: "nat \<Rightarrow> string" where
  "show_nat n = (if n < 10 then [digit_char n] else show_nat (n div 10) @ [digit_char (n mod 10)])"

declare show_nat.simps [simp del]

definition show_int :: "int \<Rightarrow> string" where
  "show_int i = (if i < 0 then CHR ''-'' # show_nat (nat (- i)) else show_nat (nat i))"

fun show_RuleType :: "RuleType \<Rightarrow> string" where
  "show_RuleType GENERAL = ''GENERAL''"
| "show_RuleType IP = ''IP''"
| "show_RuleType API = ''API''"

section \<open>The pattern matcher\<close>

text \<open>
  \<^verbatim>\<open>
  private matchesPattern(url: string, pattern: string): boolean {
    const regexPattern = pattern
      .replace(/[.+?^${}()|[\]\\]/g, '\\$&') // Escape special regex chars
      .replace(/\*/g, '.*'); // Replace * with .*
    const regex = new RegExp(`^${regexPattern}$`, 'i');
    return regex.test(url);
  }
  \<close>
  Strings are lists of UTF-16 code units; a \<open>char\<close> is a code unit below 256, so the
  model covers the strings of ASCII and Latin-1 characters.
\<close>

definition special_chars :: "char list" where
  "special_chars = ''.+?^${}()|[]'' @ [CHR 0x5C]"

text \<open>\<^verbatim>\<open>.replace(/[.+?^${}()|[\]\\]/g, '\\$&')\<close>: a backslash before every special character.\<close>

fun escape_special :: "string \<Rightarrow> string" where
  "escape_special [] = []"
| "escape_special (c # cs) =
     (if c \<in> set special_chars then CHR 0x5C # c # escape_special cs
      else c # escape_special cs)"

text \<open>\<^verbatim>\<open>.replace(/\*/g, '.*')\<close>\<close>

fun replace_star :: "string \<Rightarrow> string" where
  "replace_star [] = []"
| "replace_star (c # cs) =
     (if c = CHR ''*'' then CHR ''.'' # CHR ''*'' # replace_star cs
      else c # replace_star cs)"

text \<open>
  The regular expressions that \<^verbatim>\<open>new RegExp\<close> is given here are sequences of three
  kinds of terms: an escaped syntax character \<^verbatim>\<open>\c\<close>, the term \<^verbatim>\<open>.*\<close>, and a
  character that is not a syntax character. \<open>parse_regex\<close> reads this fragment of the
  pattern grammar and answers \<open>None\<close> on any other source text.
\<close>

datatype regex_term = Lit char | AnyStar

definition syntax_chars :: "char list" where
  "syntax_chars = ''^$.*+?()[]{}|'' @ [CHR 0x5C]"

fun parse_regex :: "string \<Rightarrow> regex_term list option" where
  "parse_regex [] = Some []"
| "parse_regex [c] = (if c \<in> set syntax_chars then None else Some [Lit c])"
| "parse_regex (c # d # cs) =
     (if c = CHR 0x5C then
        (if d \<in> set syntax_chars then map_option (\<lambda>ts. Lit d # ts) (parse_regex cs) else None)
      else if c = CHR ''.'' \<and> d = CHR ''*'' then map_option (\<lambda>ts. AnyStar # ts) (parse_regex cs)
      else if c \<in> set syntax_chars then None
      else map_option (\<lambda>ts. Lit c # ts) (parse_regex (d # cs)))"

text \<open>
  Flag \<^verbatim>\<open>i\<close>: two code units are compared after canonicalisation, which replaces a
  code unit by its upper-case form when that form is a single code unit. Below 256 the
  letters with such a form are \<^verbatim>\<open>a\<close> to \<^verbatim>\<open>z\<close> (97 to 122) and the Latin-1 letters 224 to
  254 without the division sign 247; the upper-case form is 32 lower. The sharp s (223)
  has a two-unit upper-case form and stays. The micro sign (181) and the y with diaeresis
  (255) have upper-case forms above 255 that no other code unit below 256 shares; they are
  left as they are, which gives the same comparisons between code units below 256.
\<close>

definition canonicalize :: "char \<Rightarrow> char" where
  "canonicalize c =
     (let n = (of_char c :: nat)
      in if (97 \<le> n \<and> n \<le> 122) \<or> (224 \<le> n \<and> n \<le> 254 \<and> n \<noteq> 247)
         then char_of (n - 32) else c)"

text \<open>
  Without flag \<^verbatim>\<open>s\<close>, the dot matches any code unit but a line terminator; below 256
  these are the line feed and the carriage return.
\<close>

definition line_terminator :: "char \<Rightarrow> bool" where
  "line_terminator c = (c = CHR 0x0A \<or> c = CHR 0x0D)"

text \<open>
  \<open>regex_matches ts s\<close>: the terms \<open>ts\<close>, anchored by \<^verbatim>\<open>^\<close> and \<^verbatim>\<open>$\<close>, match the
  whole of \<open>s\<close>. A backtracking matcher finds a match iff one exists, so the star's
  greediness does not show in the result of \<^verbatim>\<open>test\<close>.
\<close>

fun regex_matches :: "regex_term list \<Rightarrow> string \<Rightarrow> bool" where
  "regex_matches [] s = (s = [])"
| "regex_matches (Lit c # ts) [] = False"
| "regex_matches (Lit c # ts) (x # xs) = (canonicalize x = canonicalize c \<and> regex_matches ts xs)"
| "regex_matches (AnyStar # ts) [] = regex_matches ts []"
| "regex_matches (AnyStar # ts) (x # xs) =
     (regex_matches ts (x # xs) \<or> (\<not> line_terminator x \<and> regex_matches (AnyStar # ts) xs))"

definition matchesPattern :: "string \<Rightarrow> string \<Rightarrow> error + bool" where
  "matchesPattern url pattern =
     (let regexPattern = replace_star (escape_special pattern)
      in case parse_regex regexPattern of
           None \<Rightarrow> Inl SYNTAX_ERROR
         | Some ts \<Rightarrow> Inr (regex_matches ts url))"

section \<open>The rate limiter (src/lib/rateLimiter.ts)\<close>

text \<open>
  \<^verbatim>\<open>class RateLimiter\<close>: the instance holds the two private maps \<^verbatim>\<open>rulesCache\<close> and
  \<^verbatim>\<open>cacheExpiry\<close>, both keyed by tenant id.
\<close>

record RateLimiter =
  rulesCache :: "string \<rightharpoonup> RateLimitRule list"
  cacheExpiry :: "string \<rightharpoonup> nat"

text \<open>\<^verbatim>\<open>private readonly CACHE_TTL = 60000; // 1 minute cache\<close>\<close>

definition CACHE_TTL :: nat where
  "CACHE_TTL = 60000"

text \<open>
  \<^verbatim>\<open>
  private async loadRulesForTenant(tenantId: string): Promise<RateLimitRule[]> {
    const now = Date.now();
    const cacheKey = tenantId;
    const expiry = this.cacheExpiry.get(cacheKey);
    if (expiry && expiry > now && this.rulesCache.has(cacheKey)) {
      return this.rulesCache.get(cacheKey)!;
    }
    const result = await query<RateLimitRule>(..., [tenantId]);
    const rules = result.rows;
    this.rulesCache.set(cacheKey, rules);
    this.cacheExpiry.set(cacheKey, now + this.CACHE_TTL);
    return rules;
  }
  \<close>
  \<^verbatim>\<open>expiry && ...\<close> is false for an absent entry and for the number 0.
\<close>

definition loadRulesForTenant ::
  "RateLimiter \<Rightarrow> string \<Rightarrow> world \<Rightarrow> (error + RateLimitRule list) \<times> RateLimiter \<times> world" where
  "loadRulesForTenant this tenantId w =
     (case Date_now w of (now, w1) \<Rightarrow>
        (let cacheKey = tenantId
         in case (cacheExpiry this cacheKey, rulesCache this cacheKey) of
              (Some expiry, Some cached) \<Rightarrow>
                if expiry \<noteq> 0 \<and> expiry > now then (Inr cached, this, w1)
                else (case query tenantId w1 of
                        (Inl e, w2) \<Rightarrow> (Inl e, this, w2)
                      | (Inr rules, w2) \<Rightarrow>
                          (Inr rules,
                           this\<lparr>rulesCache := (rulesCache this)(cacheKey \<mapsto> rules),
                                cacheExpiry := (cacheExpiry this)(cacheKey \<mapsto> now + CACHE_TTL)\<rparr>,
                           w2))
            | _ \<Rightarrow>
                (case query tenantId w1 of
                   (Inl e, w2) \<Rightarrow> (Inl e, this, w2)
                 | (Inr rules, w2) \<Rightarrow>
                     (Inr rules,
                      this\<lparr>rulesCache := (rulesCache this)(cacheKey \<mapsto> rules),
                           cacheExpiry := (cacheExpiry this)(cacheKey \<mapsto> now + CACHE_TTL)\<rparr>,
                      w2))))"

text \<open>
  \<^verbatim>\<open>
  private getCurrentWindow(windowSeconds: number): number {
    return Math.floor(Date.now() / 1000 / windowSeconds);
  }
  \<close>
  The two divisions are divisions of numbers, not of integers; they are taken exactly, in
  the reals. For \<^verbatim>\<open>windowSeconds = 0\<close> JavaScript yields an infinity, which has no
  counterpart here: the table's CHECK constraint keeps \<^verbatim>\<open>window_seconds\<close> positive.
\<close>

definition getCurrentWindow :: "int \<Rightarrow> world \<Rightarrow> int \<times> world" where
  "getCurrentWindow windowSeconds w =
     (case Date_now w of (now, w1) \<Rightarrow>
        (\<lfloor>real now / 1000 / real_of_int windowSeconds\<rfloor>, w1))"

text \<open>
  \<^verbatim>\<open>
  private async checkRule(rule, tenantId, ipAddress, apiUrl?): Promise<RateLimitResult> {
    const window = this.getCurrentWindow(rule.window_seconds);
    let identifier: string;
    switch (rule.rule_type) {
      case 'GENERAL': identifier = 'general'; break;
      case 'IP': identifier = ipAddress; break;
      case 'API': identifier = apiUrl || 'unknown'; break;
      default: identifier = 'unknown';
    }
    const redisKey = `rate_limit:${tenantId}:${rule.rule_type}:${identifier}:${window}`;
    const count = await incrementCounter(redisKey, rule.window_seconds);
    const allowed = count <= rule.limit;
    const remaining = Math.max(0, rule.limit - count);
    const resetTime = (window + 1) * rule.window_seconds;
    if (!allowed) {
      return { allowed: false, limit: rule.limit, remaining, resetTime,
        message: `Rate limit exceeded for ${rule.rule_type} rule. Limit: ${rule.limit} requests per ${rule.window_seconds}s` };
    }
    return { allowed: true, limit: rule.limit, remaining, resetTime };
  }
  \<close>
  The optional argument \<^verbatim>\<open>apiUrl\<close> is a \<open>string option\<close>; \<^verbatim>\<open>apiUrl || 'unknown'\<close> takes
  the default for \<^verbatim>\<open>undefined\<close> and for the empty string. The \<^verbatim>\<open>switch\<close> is
  \<open>identifier_of\<close>, the template literal of the key is \<open>redisKey_of\<close> and the one of
  the message is \<open>exceeded_message\<close>.
\<close>

definition identifier_of :: "RateLimitRule \<Rightarrow> string \<Rightarrow> string option \<Rightarrow> string" where
  "identifier_of rule ipAddress apiUrl =
     (case rule_type rule of
        GENERAL \<Rightarrow> ''general''
      | IP \<Rightarrow> ipAddress
      | API \<Rightarrow> (case apiUrl of None \<Rightarrow> ''unknown''
                | Some u \<Rightarrow> if u = [] then ''unknown'' else u))"

definition redisKey_of :: "string \<Rightarrow> RateLimitRule \<Rightarrow> string \<Rightarrow> int \<Rightarrow> string" where
  "redisKey_of tenantId rule identifier window =
     ''rate_limit:'' @ tenantId @ '':'' @ show_RuleType (rule_type rule)
       @ '':'' @ identifier @ '':'' @ show_int window"

definition exceeded_message :: "RateLimitRule \<Rightarrow> string" where
  "exceeded_message rule =
     ''Rate limit exceeded for '' @ show_RuleType (rule_type rule)
       @ '' rule. Limit: '' @ show_int (limit rule)
       @ '' requests per '' @ show_int (window_seconds rule) @ ''s''"

definition checkRule ::
  "RateLimitRule \<Rightarrow> string \<Rightarrow> string \<Rightarrow> string option \<Rightarrow> world \<Rightarrow> (error + RateLimitResult) \<times> world" where
  "checkRule rule tenantId ipAddress apiUrl w =
     (case getCurrentWindow (window_seconds rule) w of (window, w1) \<Rightarrow>
        (let identifier = identifier_of rule ipAddress apiUrl;
             redisKey = redisKey_of tenantId rule identifier window
         in case incrementCounter redisKey (window_seconds rule) w1 of
              (Inl e, w2) \<Rightarrow> (Inl e, w2)
            | (Inr count, w2) \<Rightarrow>
                (let allowed' = (count \<le> limit rule);
                     remaining' = max 0 (limit rule - count);
                     resetTime' = (window + 1) * window_seconds rule
                 in if \<not> allowed' then
                      (Inr \<lparr>allowed = False, result_limit = Some (limit rule),
                            remaining = Some remaining', resetTime = Some resetTime',
                            message = Some (exceeded_message rule)\<rparr>,
                       w2)
                    else
                      (Inr \<lparr>allowed = True, result_limit = Some (limit rule),
                            remaining = Some remaining', resetTime = Some resetTime',
                            message = None\<rparr>,
                       w2))))"

text \<open>
  The inner loop of \<^verbatim>\<open>checkRateLimit\<close>:
  \<^verbatim>\<open>
  for (const rule of applicableRules) {
    if (rule.rule_type === 'API' && !apiUrl) { continue; }
    if (rule.rule_type === 'API' && rule.api_pattern) {
      if (!this.matchesPattern(apiUrl!, rule.api_pattern)) { continue; }
    }
    const result = await this.checkRule(rule, tenantId, ipAddress, apiUrl);
    if (!result.allowed) { return result; }
  }
  \<close>
  The loop ends with \<open>Inr (Some result)\<close> when it returns from the function, with
  \<open>Inr None\<close> when it runs to its end, and with \<open>Inl e\<close> when a call throws.
  \<^verbatim>\<open>!apiUrl\<close> holds for \<^verbatim>\<open>undefined\<close> and for the empty string; \<^verbatim>\<open>rule.api_pattern\<close> is
  falsy for \<^verbatim>\<open>null\<close> and for the empty string.
\<close>

definition falsy :: "string option \<Rightarrow> bool" where
  "falsy s = (case s of None \<Rightarrow> True | Some u \<Rightarrow> u = [])"

fun rules_loop ::
  "RateLimitRule list \<Rightarrow> string \<Rightarrow> string \<Rightarrow> string option \<Rightarrow> world
     \<Rightarrow> (error + RateLimitResult option) \<times> world" where
  "rules_loop [] tenantId ipAddress apiUrl w = (Inr None, w)"
| "rules_loop (rule # rest) tenantId ipAddress apiUrl w =
     (if rule_type rule = API \<and> falsy apiUrl then rules_loop rest tenantId ipAddress apiUrl w
      else
        (case (if rule_type rule = API \<and> \<not> falsy (api_pattern rule)
               then matchesPattern (the apiUrl) (the (api_pattern rule))
               else Inr True) of
           Inl e \<Rightarrow> (Inl e, w)
         | Inr False \<Rightarrow> rules_loop rest tenantId ipAddress apiUrl w
         | Inr True \<Rightarrow>
             (case checkRule rule tenantId ipAddress apiUrl w of
                (Inl e, w1) \<Rightarrow> (Inl e, w1)
              | (Inr result, w1) \<Rightarrow>
                  if \<not> allowed result then (Inr (Some result), w1)
                  else rules_loop rest tenantId ipAddress apiUrl w1)))"

text \<open>
  The outer loop:
  \<^verbatim>\<open>
  const ruleTypes: RuleType[] = ['GENERAL', 'IP', 'API'];
  for (const ruleType of ruleTypes) {
    const applicableRules = rules.filter((rule) => rule.rule_type === ruleType);
    for (const rule of applicableRules) { ... }
  }
  \<close>
\<close>

fun types_loop ::
  "RuleType list \<Rightarrow> RateLimitRule list \<Rightarrow> string \<Rightarrow> string \<Rightarrow> string option \<Rightarrow> world
     \<Rightarrow> (error + RateLimitResult option) \<times> world" where
  "types_loop [] rules tenantId ipAddress apiUrl w = (Inr None, w)"
| "types_loop (ruleType # ruleTypes) rules tenantId ipAddress apiUrl w =
     (let applicableRules = filter (\<lambda>rule. rule_type rule = ruleType) rules
      in case rules_loop applicableRules tenantId ipAddress apiUrl w of
           (Inl e, w1) \<Rightarrow> (Inl e, w1)
         | (Inr (Some result), w1) \<Rightarrow> (Inr (Some result), w1)
         | (Inr None, w1) \<Rightarrow> types_loop ruleTypes rules tenantId ipAddress apiUrl w1)"

text \<open>
  The body of the \<^verbatim>\<open>try\<close> block of \<^verbatim>\<open>checkRateLimit\<close>:
  \<^verbatim>\<open>
  const rules = await this.loadRulesForTenant(tenantId);
  if (rules.length === 0) { return { allowed: true }; }
  const ruleTypes: RuleType[] = ['GENERAL', 'IP', 'API'];
  for (const ruleType of ruleTypes) { ... }
  return { allowed: true };
  \<close>
\<close>

definition checkRateLimit_try ::
  "RateLimiter \<Rightarrow> string \<Rightarrow> string \<Rightarrow> string option \<Rightarrow> world
     \<Rightarrow> (error + RateLimitResult) \<times> RateLimiter \<times> world" where
  "checkRateLimit_try this tenantId ipAddress apiUrl w =
     (case loadRulesForTenant this tenantId w of
        (Inl e, this1, w1) \<Rightarrow> (Inl e, this1, w1)
      | (Inr rules, this1, w1) \<Rightarrow>
          if length rules = 0 then
            (Inr \<lparr>allowed = True, result_limit = None, remaining = None,
                  resetTime = None, message = None\<rparr>, this1, w1)
          else
            (case types_loop [GENERAL, IP, API] rules tenantId ipAddress apiUrl w1 of
               (Inl e, w2) \<Rightarrow> (Inl e, this1, w2)
             | (Inr (Some result), w2) \<Rightarrow> (Inr result, this1, w2)
             | (Inr None, w2) \<Rightarrow>
                 (Inr \<lparr>allowed = True, result_limit = None, remaining = None,
                       resetTime = None, message = None\<rparr>, this1, w2)))"

text \<open>
  \<^verbatim>\<open>
  async checkRateLimit(tenantId, ipAddress, apiUrl?): Promise<RateLimitResult> {
    try { ... } catch (error) {
      console.error('Error checking rate limit:', error);
      return { allowed: true, message: 'Rate limiter error, allowing request' };
    }
  }
  \<close>
\<close>

definition checkRateLimit ::
  "RateLimiter \<Rightarrow> string \<Rightarrow> string \<Rightarrow> string option \<Rightarrow> world
     \<Rightarrow> RateLimitResult \<times> RateLimiter \<times> world" where
  "checkRateLimit this tenantId ipAddress apiUrl w =
     (case checkRateLimit_try this tenantId ipAddress apiUrl w of
        (Inl e, this1, w1) \<Rightarrow>
          (\<lparr>allowed = True, result_limit = None, remaining = None, resetTime = None,
            message = Some ''Rate limiter error, allowing request''\<rparr>, this1, w1)
      | (Inr result, this1, w1) \<Rightarrow> (result, this1, w1))"

text \<open>
  \<^verbatim>\<open>clearCache(): void { this.rulesCache.clear(); this.cacheExpiry.clear(); }\<close>
\<close>

definition clearCache :: "RateLimiter \<Rightarrow> RateLimiter" where
  "clearCache this = this\<lparr>rulesCache := Map.empty, cacheExpiry := Map.empty\<rparr>"

section \<open>Notions of the specification and example environments\<close>

text \<open>The current time in epoch seconds: what the next reading of the clock gives, over 1000.\<close>

definition epoch_seconds :: "world \<Rightarrow> real" where
  "epoch_seconds w = real (clock w (clock_reads w)) / 1000"

text \<open>
  An environment with a clock standing at \<open>now\<close> milliseconds, no outage, the rows \<open>rows\<close>
  for every tenant and an empty counter store; a limiter with an empty cache; a
  tenant-wide rule.
\<close>

definition quiet_world :: "nat \<Rightarrow> RateLimitRule list \<Rightarrow> world" where
  "quiet_world now rows =
     \<lparr>clock = (\<lambda>n. now), clock_reads = 0, faults = (\<lambda>n. False), io_calls = 0,
      db_rows = (\<lambda>t. rows), db_log = [], redis_kv = Map.empty, redis_ttl = Map.empty,
      redis_log = []\<rparr>"

definition empty_limiter :: RateLimiter where
  "empty_limiter = \<lparr>rulesCache = Map.empty, cacheExpiry = Map.empty\<rparr>"

definition general_rule :: "int \<Rightarrow> int \<Rightarrow> RateLimitRule" where
  "general_rule l s = \<lparr>rule_id = ''r1'', tenant_id = ''T'', rule_type = GENERAL, limit = l,
      window_seconds = s, api_pattern = None\<rparr>"

section \<open>The counter store adapter: increment and conditional expiry\<close>

text \<open>
  Claim C9. When the store accepts the commands, \<open>incrementCounter key ttl\<close> sends INCR for
  \<open>key\<close>, which raises the counter under \<open>key\<close> by exactly 1 (an absent key counting as 0)
  and leaves every other counter as it was, and returns the value after the increment.
  It sends EXPIRE for \<open>key\<close> with \<open>ttl\<close>, attaching that time to live to the key, exactly
  when the value after the increment is 1; otherwise no time to live is touched.
\<close>

theorem incrementCounter_spec:
  assumes "\<not> faults w (io_calls w)" and "\<not> faults w (Suc (io_calls w))"
  shows "incrementCounter key ttl w =
     (let count = (case redis_kv w key of None \<Rightarrow> 0 | Some v \<Rightarrow> v) + 1
      in (Inr count,
          w\<lparr>io_calls := (if count = 1 then Suc (Suc (io_calls w)) else Suc (io_calls w)),
            redis_kv := (redis_kv w)(key \<mapsto> count),
            redis_ttl := (if count = 1 then (redis_ttl w)(key \<mapsto> ttl) else redis_ttl w),
            redis_log := redis_log w @ (if count = 1 then [INCR key, EXPIRE key ttl] else [INCR key])\<rparr>))"
  using assms
  by (simp add: incrementCounter_def redis_incr_def redis_expire_def Let_def)

theorem incrementCounter_spec_witness:
  "incrementCounter ''k'' 30 (quiet_world 100000 []) =
     (Inr 1, (quiet_world 100000 [])\<lparr>io_calls := 2, redis_kv := [''k'' \<mapsto> 1],
                redis_ttl := [''k'' \<mapsto> 30], redis_log := [INCR ''k'', EXPIRE ''k'' 30]\<rparr>)
   \<and> incrementCounter ''k'' 30 ((quiet_world 100000 [])\<lparr>redis_kv := [''k'' \<mapsto> 1]\<rparr>) =
     (Inr 2, (quiet_world 100000 [])\<lparr>io_calls := 1, redis_kv := [''k'' \<mapsto> 2],
                redis_log := [INCR ''k'']\<rparr>)"
  using incrementCounter_spec [of "quiet_world 100000 []" "''k''" 30]
    incrementCounter_spec [of "(quiet_world 100000 [])\<lparr>redis_kv := [''k'' \<mapsto> 1]\<rparr>" "''k''" 30]
  by (simp add: quiet_world_def Let_def)

section \<open>The decision of one rule\<close>

text \<open>
  Claim C2. Let \<open>window\<close> be the window index \<open>checkRule\<close> computes for the rule and
  \<open>count\<close> the value the counter store returns for the rule's key. If \<open>count\<close> exceeds the
  rule's limit, the decision has \<open>allowed = False\<close>, the rule's limit, \<open>remaining = 0\<close>,
  \<open>resetTime = (window + 1) * window_seconds\<close> and a message that names the rule kind, the
  limit and the window length. If \<open>count\<close> is at most the limit, the rule passes:
  \<open>allowed = True\<close>, with \<open>remaining = limit - count\<close>.
\<close>

theorem checkRule_decision:
  assumes "getCurrentWindow (window_seconds rule) w = (window, w1)"
    and "incrementCounter (redisKey_of tenantId rule (identifier_of rule ipAddress apiUrl) window)
           (window_seconds rule) w1 = (Inr count, w2)"
  shows "checkRule rule tenantId ipAddress apiUrl w =
     (if limit rule < count
      then (Inr \<lparr>allowed = False, result_limit = Some (limit rule), remaining = Some 0,
                 resetTime = Some ((window + 1) * window_seconds rule),
                 message = Some (''Rate limit exceeded for '' @ show_RuleType (rule_type rule)
                            @ '' rule. Limit: '' @ show_int (limit rule)
                            @ '' requests per '' @ show_int (window_seconds rule) @ ''s'')\<rparr>, w2)
      else (Inr \<lparr>allowed = True, result_limit = Some (limit rule),
                 remaining = Some (limit rule - count),
                 resetTime = Some ((window + 1) * window_seconds rule), message = None\<rparr>, w2))"
  using assms
  by (simp add: checkRule_def exceeded_message_def Let_def max_def)

theorem checkRule_decision_witness:
  "checkRule (general_rule 3 30) ''T'' ''1.2.3.4'' None
       ((quiet_world 100000 [])\<lparr>redis_kv := [''rate_limit:T:GENERAL:general:3'' \<mapsto> 3]\<rparr>) =
     (Inr \<lparr>allowed = False, result_limit = Some 3, remaining = Some 0, resetTime = Some 120,
           message = Some ''Rate limit exceeded for GENERAL rule. Limit: 3 requests per 30s''\<rparr>,
      (quiet_world 100000 [])\<lparr>clock_reads := 1, io_calls := 1,
         redis_kv := [''rate_limit:T:GENERAL:general:3'' \<mapsto> 4],
         redis_log := [INCR ''rate_limit:T:GENERAL:general:3'']\<rparr>)"
proof -
  let ?w = "(quiet_world 100000 [])\<lparr>redis_kv := [''rate_limit:T:GENERAL:general:3'' \<mapsto> 3]\<rparr>"
  let ?w1 = "?w\<lparr>clock_reads := 1\<rparr>"
  let ?w2 = "(quiet_world 100000 [])\<lparr>clock_reads := 1, io_calls := 1,
         redis_kv := [''rate_limit:T:GENERAL:general:3'' \<mapsto> 4],
         redis_log := [INCR ''rate_limit:T:GENERAL:general:3'']\<rparr>"
  have three: "show_int 3 = ''3''" and thirty: "show_int 30 = ''30''"
    by code_simp+
  have win: "getCurrentWindow (window_seconds (general_rule 3 30)) ?w = (3, ?w1)"
    by (simp add: getCurrentWindow_def Date_now_def general_rule_def quiet_world_def)
  have key: "redisKey_of ''T'' (general_rule 3 30) (identifier_of (general_rule 3 30) ''1.2.3.4'' None) 3
      = ''rate_limit:T:GENERAL:general:3''"
    by (simp add: redisKey_of_def identifier_of_def general_rule_def three)
  have inc: "incrementCounter (redisKey_of ''T'' (general_rule 3 30)
               (identifier_of (general_rule 3 30) ''1.2.3.4'' None) 3)
             (window_seconds (general_rule 3 30)) ?w1 = (Inr 4, ?w2)"
    unfolding key
    by (simp add: incrementCounter_def redis_incr_def general_rule_def quiet_world_def Let_def)
  show ?thesis
    using checkRule_decision [OF win inc]
    by (simp add: general_rule_def three thirty)
qed

section \<open>The window calculator\<close>

lemma floor_window_div: "\<lfloor>real n / 1000 / real_of_int W\<rfloor> = int n div (1000 * W)"
proof -
  have "real n / 1000 / real_of_int W = real_of_int (int n) / real_of_int (1000 * W)"
    by simp
  then show ?thesis
    by (simp only: floor_divide_of_int_eq)
qed

lemma fst_getCurrentWindow:
  "fst (getCurrentWindow W w) = \<lfloor>epoch_seconds w / real_of_int W\<rfloor>"
  by (simp add: getCurrentWindow_def Date_now_def epoch_seconds_def)

lemma same_floor_iff:
  fixes x y :: real
  shows "\<lfloor>x\<rfloor> = \<lfloor>y\<rfloor> \<longleftrightarrow> (\<exists>k::int. of_int k \<le> x \<and> x < of_int k + 1 \<and> of_int k \<le> y \<and> y < of_int k + 1)"
proof
  assume "\<lfloor>x\<rfloor> = \<lfloor>y\<rfloor>"
  then have "of_int \<lfloor>x\<rfloor> \<le> x \<and> x < of_int \<lfloor>x\<rfloor> + 1 \<and> of_int \<lfloor>x\<rfloor> \<le> y \<and> y < of_int \<lfloor>x\<rfloor> + 1"
    by (metis floor_eq_iff)
  then show "\<exists>k::int. of_int k \<le> x \<and> x < of_int k + 1 \<and> of_int k \<le> y \<and> y < of_int k + 1"
    by blast
next
  assume "\<exists>k::int. of_int k \<le> x \<and> x < of_int k + 1 \<and> of_int k \<le> y \<and> y < of_int k + 1"
  then obtain k :: int where "of_int k \<le> x" "x < of_int k + 1" "of_int k \<le> y" "y < of_int k + 1"
    by blast
  then have "\<lfloor>x\<rfloor> = k" "\<lfloor>y\<rfloor> = k"
    by (simp_all add: floor_eq_iff)
  then show "\<lfloor>x\<rfloor> = \<lfloor>y\<rfloor>" by simp
qed

lemma in_window_iff:
  fixes t :: real
  assumes "0 < W"
  shows "(of_int k \<le> t / real_of_int W \<and> t / real_of_int W < of_int k + 1)
     \<longleftrightarrow> (real_of_int (k * W) \<le> t \<and> t < real_of_int ((k + 1) * W))"
  using assms by (simp add: pos_le_divide_eq pos_divide_less_eq algebra_simps)

text \<open>
  Claim C6, as amended. For a window length \<open>W > 0\<close> and the current time \<open>t\<close> in epoch
  seconds, the window index \<open>getCurrentWindow\<close> computes is \<open>\<lfloor>t / W\<rfloor>\<close>, and two times get
  the same index iff both lie in one interval \<open>[k * W, (k + 1) * W)\<close>. With \<open>W = 60\<close>, the
  epochs 120 and 179 share a window and the epoch 181 falls into the next one.
\<close>

theorem window_index:
  assumes "0 < W"
  shows "fst (getCurrentWindow W w) = \<lfloor>epoch_seconds w / real_of_int W\<rfloor>
     \<and> (fst (getCurrentWindow W w) = fst (getCurrentWindow W w') \<longleftrightarrow>
          (\<exists>k::int. real_of_int (k * W) \<le> epoch_seconds w \<and> epoch_seconds w < real_of_int ((k + 1) * W)
                  \<and> real_of_int (k * W) \<le> epoch_seconds w' \<and> epoch_seconds w' < real_of_int ((k + 1) * W)))
     \<and> fst (getCurrentWindow 60 (quiet_world 120000 [])) = fst (getCurrentWindow 60 (quiet_world 179000 []))
     \<and> fst (getCurrentWindow 60 (quiet_world 181000 [])) = fst (getCurrentWindow 60 (quiet_world 179000 [])) + 1"
proof -
  have a: "fst (getCurrentWindow W w) = \<lfloor>epoch_seconds w / real_of_int W\<rfloor>"
    by (rule fst_getCurrentWindow)
  have "fst (getCurrentWindow W w) = fst (getCurrentWindow W w') \<longleftrightarrow>
      (\<exists>k::int. of_int k \<le> epoch_seconds w / real_of_int W \<and> epoch_seconds w / real_of_int W < of_int k + 1
             \<and> of_int k \<le> epoch_seconds w' / real_of_int W \<and> epoch_seconds w' / real_of_int W < of_int k + 1)"
    unfolding fst_getCurrentWindow by (rule same_floor_iff)
  also have "\<dots> \<longleftrightarrow> (\<exists>k::int. (of_int k \<le> epoch_seconds w / real_of_int W \<and> epoch_seconds w / real_of_int W < of_int k + 1)
             \<and> (of_int k \<le> epoch_seconds w' / real_of_int W \<and> epoch_seconds w' / real_of_int W < of_int k + 1))"
    by simp
  also have "\<dots> \<longleftrightarrow>
      (\<exists>k::int. (real_of_int (k * W) \<le> epoch_seconds w \<and> epoch_seconds w < real_of_int ((k + 1) * W))
              \<and> (real_of_int (k * W) \<le> epoch_seconds w' \<and> epoch_seconds w' < real_of_int ((k + 1) * W)))"
    unfolding in_window_iff [OF assms] ..
  finally have b: "fst (getCurrentWindow W w) = fst (getCurrentWindow W w') \<longleftrightarrow>
          (\<exists>k::int. real_of_int (k * W) \<le> epoch_seconds w \<and> epoch_seconds w < real_of_int ((k + 1) * W)
                  \<and> real_of_int (k * W) \<le> epoch_seconds w' \<and> epoch_seconds w' < real_of_int ((k + 1) * W))"
    by simp
  have c: "fst (getCurrentWindow 60 (quiet_world 120000 [])) = fst (getCurrentWindow 60 (quiet_world 179000 []))"
    by (simp add: getCurrentWindow_def Date_now_def quiet_world_def)
  have d: "fst (getCurrentWindow 60 (quiet_world 181000 [])) = fst (getCurrentWindow 60 (quiet_world 179000 [])) + 1"
    by (simp add: getCurrentWindow_def Date_now_def quiet_world_def)
  from a b c d show ?thesis by blast
qed

theorem window_index_witness:
  "(0::int) < 60
   \<and> fst (getCurrentWindow 60 (quiet_world 120000 [])) = \<lfloor>epoch_seconds (quiet_world 120000 []) / real_of_int 60\<rfloor>
   \<and> fst (getCurrentWindow 60 (quiet_world 120000 [])) = 2
   \<and> (\<exists>k::int. real_of_int (k * 60) \<le> epoch_seconds (quiet_world 120000 [])
          \<and> epoch_seconds (quiet_world 120000 []) < real_of_int ((k + 1) * 60)
          \<and> real_of_int (k * 60) \<le> epoch_seconds (quiet_world 179000 [])
          \<and> epoch_seconds (quiet_world 179000 []) < real_of_int ((k + 1) * 60))"
proof -
  have pos: "(0::int) < 60" by simp
  note th = window_index [OF pos, of "quiet_world 120000 []" "quiet_world 179000 []"]
  have two: "fst (getCurrentWindow 60 (quiet_world 120000 [])) = 2"
    by (simp add: getCurrentWindow_def Date_now_def quiet_world_def)
  from th have "fst (getCurrentWindow 60 (quiet_world 120000 [])) = fst (getCurrentWindow 60 (quiet_world 179000 []))"
    by blast
  with th have "\<exists>k::int. real_of_int (k * 60) \<le> epoch_seconds (quiet_world 120000 [])
          \<and> epoch_seconds (quiet_world 120000 []) < real_of_int ((k + 1) * 60)
          \<and> real_of_int (k * 60) \<le> epoch_seconds (quiet_world 179000 [])
          \<and> epoch_seconds (quiet_world 179000 []) < real_of_int ((k + 1) * 60)"
    by blast
  with th two pos show ?thesis by blast
qed

text \<open>
  The example of claim C6 as it is written fails: with \<open>W = 60\<close> the epoch 100 lies in
  window 1 and the epoch 159 in window 2, the window of the epoch 161.
\<close>

theorem window_example_counterexample:
  "fst (getCurrentWindow 60 (quiet_world 100000 [])) = 1
   \<and> fst (getCurrentWindow 60 (quiet_world 159000 [])) = 2
   \<and> fst (getCurrentWindow 60 (quiet_world 161000 [])) = 2
   \<and> fst (getCurrentWindow 60 (quiet_world 100000 [])) \<noteq> fst (getCurrentWindow 60 (quiet_world 159000 []))
   \<and> fst (getCurrentWindow 60 (quiet_world 161000 [])) = fst (getCurrentWindow 60 (quiet_world 159000 []))"
  by (simp add: getCurrentWindow_def Date_now_def quiet_world_def)

section \<open>The rule cache\<close>

lemma loadRulesForTenant_hit:
  assumes "cacheExpiry this tenantId = Some expiry" and "rulesCache this tenantId = Some cached"
    and "clock w (clock_reads w) < expiry"
  shows "loadRulesForTenant this tenantId w = (Inr cached, this, w\<lparr>clock_reads := Suc (clock_reads w)\<rparr>)"
  using assms by (simp add: loadRulesForTenant_def Date_now_def)

lemma loadRulesForTenant_miss:
  assumes "cacheExpiry this tenantId = None \<or> rulesCache this tenantId = None
           \<or> (\<exists>expiry. cacheExpiry this tenantId = Some expiry \<and> expiry \<le> clock w (clock_reads w))"
  shows "loadRulesForTenant this tenantId w =
     (if faults w (io_calls w)
      then (Inl STORE_UNAVAILABLE, this,
            w\<lparr>clock_reads := Suc (clock_reads w), io_calls := Suc (io_calls w),
              db_log := db_log w @ [tenantId]\<rparr>)
      else (Inr (db_rows w tenantId),
            this\<lparr>rulesCache := (rulesCache this)(tenantId \<mapsto> db_rows w tenantId),
                 cacheExpiry := (cacheExpiry this)(tenantId \<mapsto> clock w (clock_reads w) + 60000)\<rparr>,
            w\<lparr>clock_reads := Suc (clock_reads w), io_calls := Suc (io_calls w),
              db_log := db_log w @ [tenantId]\<rparr>))"
  using assms
  by (auto simp add: loadRulesForTenant_def Date_now_def query_def CACHE_TTL_def Let_def
      split: option.splits)

text \<open>
  Claim C7. A lookup made while the clock is before the expiry of the tenant's cached entry
  returns the cached list; the cache and the rule store's log stay as they were, and no
  store call is made. A lookup with no entry, or with an entry whose expiry the clock has
  reached, sends exactly one query for the tenant; when the store answers, the rows are
  returned and stored with the expiry \<open>now + 60000\<close> milliseconds. \<open>clearCache\<close> empties
  both maps, so the next lookup for any tenant sends a query.
\<close>

theorem rule_cache:
  "(cacheExpiry this tenantId = Some expiry \<and> rulesCache this tenantId = Some cached
      \<and> clock w (clock_reads w) < expiry
    \<longrightarrow> loadRulesForTenant this tenantId w
          = (Inr cached, this, w\<lparr>clock_reads := Suc (clock_reads w)\<rparr>))
   \<and> ((cacheExpiry this tenantId = None \<or> rulesCache this tenantId = None
        \<or> (\<exists>e. cacheExpiry this tenantId = Some e \<and> e \<le> clock w (clock_reads w)))
    \<longrightarrow> loadRulesForTenant this tenantId w =
       (if faults w (io_calls w)
        then (Inl STORE_UNAVAILABLE, this,
              w\<lparr>clock_reads := Suc (clock_reads w), io_calls := Suc (io_calls w),
                db_log := db_log w @ [tenantId]\<rparr>)
        else (Inr (db_rows w tenantId),
              this\<lparr>rulesCache := (rulesCache this)(tenantId \<mapsto> db_rows w tenantId),
                   cacheExpiry := (cacheExpiry this)(tenantId \<mapsto> clock w (clock_reads w) + 60000)\<rparr>,
              w\<lparr>clock_reads := Suc (clock_reads w), io_calls := Suc (io_calls w),
                db_log := db_log w @ [tenantId]\<rparr>)))
   \<and> rulesCache (clearCache this) = Map.empty \<and> cacheExpiry (clearCache this) = Map.empty
   \<and> db_log (snd (snd (loadRulesForTenant (clearCache this) tenantId w))) = db_log w @ [tenantId]"
proof -
  have "db_log (snd (snd (loadRulesForTenant (clearCache this) tenantId w))) = db_log w @ [tenantId]"
    by (simp add: loadRulesForTenant_miss clearCache_def)
  then show ?thesis
    using loadRulesForTenant_hit [of this tenantId expiry cached w]
      loadRulesForTenant_miss [of this tenantId w]
    by (simp add: clearCache_def)
qed

text \<open>A limiter whose cache holds tenant \<open>T\<close>'s rules, fetched at 100000 ms.\<close>

definition cached_limiter :: RateLimiter where
  "cached_limiter = \<lparr>rulesCache = [''T'' \<mapsto> [general_rule 3 30]], cacheExpiry = [''T'' \<mapsto> 160000]\<rparr>"

theorem rule_cache_witness:
  "loadRulesForTenant empty_limiter ''T'' (quiet_world 100000 [general_rule 3 30])
     = (Inr [general_rule 3 30], cached_limiter,
        (quiet_world 100000 [general_rule 3 30])\<lparr>clock_reads := 1, io_calls := 1, db_log := [''T'']\<rparr>)
   \<and> loadRulesForTenant cached_limiter ''T'' (quiet_world 159999 [])
     = (Inr [general_rule 3 30], cached_limiter, (quiet_world 159999 [])\<lparr>clock_reads := 1\<rparr>)
   \<and> loadRulesForTenant cached_limiter ''T'' (quiet_world 160000 [])
     = (Inr [], \<lparr>rulesCache = [''T'' \<mapsto> []], cacheExpiry = [''T'' \<mapsto> 220000]\<rparr>,
        (quiet_world 160000 [])\<lparr>clock_reads := 1, io_calls := 1, db_log := [''T'']\<rparr>)
   \<and> db_log (snd (snd (loadRulesForTenant (clearCache cached_limiter) ''T'' (quiet_world 159999 [])))) = [''T'']"
proof -
  have a: "loadRulesForTenant empty_limiter ''T'' (quiet_world 100000 [general_rule 3 30])
     = (Inr [general_rule 3 30], cached_limiter,
        (quiet_world 100000 [general_rule 3 30])\<lparr>clock_reads := 1, io_calls := 1, db_log := [''T'']\<rparr>)"
    using rule_cache [of empty_limiter "''T''" 0 "[]" "quiet_world 100000 [general_rule 3 30]"]
    by (simp add: empty_limiter_def cached_limiter_def quiet_world_def)
  have b: "loadRulesForTenant cached_limiter ''T'' (quiet_world 159999 [])
     = (Inr [general_rule 3 30], cached_limiter, (quiet_world 159999 [])\<lparr>clock_reads := 1\<rparr>)"
    using rule_cache [of cached_limiter "''T''" 160000 "[general_rule 3 30]" "quiet_world 159999 []"]
    by (simp add: cached_limiter_def quiet_world_def)
  have c: "loadRulesForTenant cached_limiter ''T'' (quiet_world 160000 [])
     = (Inr [], \<lparr>rulesCache = [''T'' \<mapsto> []], cacheExpiry = [''T'' \<mapsto> 220000]\<rparr>,
        (quiet_world 160000 [])\<lparr>clock_reads := 1, io_calls := 1, db_log := [''T'']\<rparr>)"
    using rule_cache [of cached_limiter "''T''" 160000 "[general_rule 3 30]" "quiet_world 160000 []"]
    by (simp add: cached_limiter_def quiet_world_def)
  have d: "db_log (snd (snd (loadRulesForTenant (clearCache cached_limiter) ''T'' (quiet_world 159999 [])))) = [''T'']"
    using rule_cache [of cached_limiter "''T''" 160000 "[general_rule 3 30]" "quiet_world 159999 []"]
    by (simp add: quiet_world_def)
  from a b c d show ?thesis by blast
qed

section \<open>What the pattern matcher decides\<close>

text \<open>
  The matching the specification describes: the target equals, up to the case of letters,
  the pattern in which every \<^verbatim>\<open>*\<close> is replaced by a run of characters. \<open>instantiate\<close>
  replaces the wildcards of a pattern by the runs of a list, in order (a missing run
  counts as empty).
\<close>

fun instantiate :: "string \<Rightarrow> string list \<Rightarrow> string" where
  "instantiate [] runs = []"
| "instantiate (c # p) runs =
     (if c = CHR ''*'' then (case runs of [] \<Rightarrow> instantiate p [] | r # rs \<Rightarrow> r @ instantiate p rs)
      else c # instantiate p runs)"

definition same_ignoring_case :: "string \<Rightarrow> string \<Rightarrow> bool" where
  "same_ignoring_case a b = (map canonicalize a = map canonicalize b)"

definition glob_spec :: "string \<Rightarrow> string \<Rightarrow> bool" where
  "glob_spec pattern target = (\<exists>runs. same_ignoring_case target (instantiate pattern runs))"

text \<open>The same, with runs that hold no line terminator.\<close>

definition glob_no_terminator :: "string \<Rightarrow> string \<Rightarrow> bool" where
  "glob_no_terminator pattern target =
     (\<exists>runs. list_all (list_all (\<lambda>c. \<not> line_terminator c)) runs
            \<and> same_ignoring_case target (instantiate pattern runs))"

text \<open>The regular expression term a character of the pattern ends up as.\<close>

definition term_of :: "char \<Rightarrow> regex_term" where
  "term_of c = (if c = CHR ''*'' then AnyStar else Lit c)"

lemma special_syntax: "c \<in> set special_chars \<Longrightarrow> c \<in> set syntax_chars"
  by (auto simp add: special_chars_def syntax_chars_def)

lemma star_not_special: "CHR ''*'' \<notin> set special_chars"
  by (simp add: special_chars_def)

lemma syntax_cases: "c \<in> set syntax_chars \<longleftrightarrow> c = CHR ''*'' \<or> c \<in> set special_chars"
  by (auto simp add: special_chars_def syntax_chars_def)

lemma parse_regex_plain:
  assumes "c \<notin> set syntax_chars"
  shows "parse_regex (c # r) = map_option (\<lambda>ts. Lit c # ts) (parse_regex r)"
proof (cases r)
  case Nil
  with assms show ?thesis by simp
next
  case (Cons d cs)
  from assms have "c \<noteq> CHR 0x5C" "c \<noteq> CHR ''.''"
    by (auto simp add: syntax_chars_def)
  with assms Cons show ?thesis by simp
qed

lemma parse_regex_escaped:
  assumes "c \<in> set syntax_chars"
  shows "parse_regex (CHR 0x5C # c # r) = map_option (\<lambda>ts. Lit c # ts) (parse_regex r)"
  using assms by simp

lemma parse_regex_dot_star:
  "parse_regex (CHR ''.'' # CHR ''*'' # r) = map_option (\<lambda>ts. AnyStar # ts) (parse_regex r)"
  by simp

lemma parse_regex_generated:
  "parse_regex (replace_star (escape_special pattern)) = Some (map term_of pattern)"
proof (induction pattern)
  case Nil
  show ?case by simp
next
  case (Cons c cs)
  consider (special) "c \<in> set special_chars" | (star) "c = CHR ''*''"
    | (plain) "c \<notin> set special_chars" "c \<noteq> CHR ''*''"
    by blast
  then show ?case
  proof cases
    case special
    then have ne: "c \<noteq> CHR ''*''" using star_not_special by auto
    have "replace_star (escape_special (c # cs)) = CHR 0x5C # c # replace_star (escape_special cs)"
      using special ne by simp
    then show ?thesis
      using Cons.IH special ne
      by (simp only: parse_regex_escaped [OF special_syntax [OF special]]) (simp add: term_of_def)
  next
    case star
    then have "replace_star (escape_special (c # cs)) = CHR ''.'' # CHR ''*'' # replace_star (escape_special cs)"
      using star_not_special by simp
    then show ?thesis
      using Cons.IH star
      by (simp only: parse_regex_dot_star) (simp add: term_of_def)
  next
    case plain
    then have ns: "c \<notin> set syntax_chars" by (simp add: syntax_cases)
    have "replace_star (escape_special (c # cs)) = c # replace_star (escape_special cs)"
      using plain by simp
    then show ?thesis
      using Cons.IH plain
      by (simp only: parse_regex_plain [OF ns]) (simp add: term_of_def)
  qed
qed

lemma matchesPattern_eq:
  "matchesPattern url pattern = Inr (regex_matches (map term_of pattern) url)"
  by (simp add: matchesPattern_def parse_regex_generated)

lemma regex_matches_star:
  "regex_matches (AnyStar # ts) s \<longleftrightarrow>
     (\<exists>k\<le>length s. list_all (\<lambda>c. \<not> line_terminator c) (take k s) \<and> regex_matches ts (drop k s))"
proof (induction s)
  case Nil
  show ?case by simp
next
  case (Cons x xs)
  show ?case
  proof
    assume "regex_matches (AnyStar # ts) (x # xs)"
    then consider "regex_matches ts (x # xs)"
      | "\<not> line_terminator x" "regex_matches (AnyStar # ts) xs"
      by auto
    then show "\<exists>k\<le>length (x # xs). list_all (\<lambda>c. \<not> line_terminator c) (take k (x # xs))
                 \<and> regex_matches ts (drop k (x # xs))"
    proof cases
      case 1
      then have "0 \<le> length (x # xs) \<and> list_all (\<lambda>c. \<not> line_terminator c) (take 0 (x # xs))
                 \<and> regex_matches ts (drop 0 (x # xs))" by simp
      then show ?thesis by blast
    next
      case 2
      with Cons.IH obtain k where k: "k \<le> length xs"
        "list_all (\<lambda>c. \<not> line_terminator c) (take k xs)" "regex_matches ts (drop k xs)"
        by blast
      with 2 have "Suc k \<le> length (x # xs) \<and> list_all (\<lambda>c. \<not> line_terminator c) (take (Suc k) (x # xs))
                 \<and> regex_matches ts (drop (Suc k) (x # xs))" by simp
      then show ?thesis by blast
    qed
  next
    assume "\<exists>k\<le>length (x # xs). list_all (\<lambda>c. \<not> line_terminator c) (take k (x # xs))
                 \<and> regex_matches ts (drop k (x # xs))"
    then obtain k where k: "k \<le> length (x # xs)"
      "list_all (\<lambda>c. \<not> line_terminator c) (take k (x # xs))" "regex_matches ts (drop k (x # xs))"
      by blast
    show "regex_matches (AnyStar # ts) (x # xs)"
    proof (cases k)
      case 0
      with k show ?thesis by simp
    next
      case (Suc j)
      with k have "j \<le> length xs" "\<not> line_terminator x"
        "list_all (\<lambda>c. \<not> line_terminator c) (take j xs)" "regex_matches ts (drop j xs)"
        by simp_all
      with Cons.IH show ?thesis by auto
    qed
  qed
qed

lemma of_char_canonicalize:
  "(of_char (canonicalize c) :: nat) =
     (if (97 \<le> (of_char c :: nat) \<and> (of_char c :: nat) \<le> 122)
         \<or> (224 \<le> (of_char c :: nat) \<and> (of_char c :: nat) \<le> 254 \<and> (of_char c :: nat) \<noteq> 247)
      then of_char c - 32 else of_char c)"
proof -
  have "(of_char c :: nat) \<le> 254 \<Longrightarrow> (of_char c - 32) mod 256 = (of_char c :: nat) - 32"
    by simp
  then show ?thesis
    by (auto simp add: canonicalize_def Let_def)
qed

lemma line_terminator_of_char:
  "line_terminator c \<longleftrightarrow> (of_char c :: nat) = 10 \<or> (of_char c :: nat) = 13"
proof -
  have "(c = CHR 0x0A) = ((of_char c :: nat) = of_char (CHR 0x0A))"
    by (simp only: of_char_eq_iff)
  moreover have "(c = CHR 0x0D) = ((of_char c :: nat) = of_char (CHR 0x0D))"
    by (simp only: of_char_eq_iff)
  ultimately show ?thesis
    by (simp add: line_terminator_def)
qed

lemma canonicalize_terminator:
  assumes "canonicalize x = canonicalize y"
  shows "line_terminator x = line_terminator y"
proof -
  from assms have "(of_char (canonicalize x) :: nat) = of_char (canonicalize y)"
    by simp
  then show ?thesis
    unfolding of_char_canonicalize line_terminator_of_char
    by (auto split: if_splits)
qed

lemma canonicalize_no_terminators:
  assumes "map canonicalize xs = map canonicalize ys"
  shows "list_all (\<lambda>c. \<not> line_terminator c) xs = list_all (\<lambda>c. \<not> line_terminator c) ys"
  using assms
proof (induction xs arbitrary: ys)
  case Nil
  then show ?case by simp
next
  case (Cons x xs)
  then obtain y ys' where ys: "ys = y # ys'" "canonicalize x = canonicalize y"
    "map canonicalize xs = map canonicalize ys'"
    by (cases ys) auto
  with Cons.IH [of ys'] canonicalize_terminator [of x y] show ?case by simp
qed

lemma regex_matches_glob:
  "regex_matches (map term_of pattern) url = glob_no_terminator pattern url"
proof (induction pattern arbitrary: url)
  case Nil
  show ?case
    by (auto simp add: glob_no_terminator_def same_ignoring_case_def intro: exI [of _ "[]"])
next
  case (Cons c p)
  show ?case
  proof (cases "c = CHR ''*''")
    case False
    show ?thesis
    proof (cases url)
      case Nil
      with False show ?thesis
        by (simp add: term_of_def glob_no_terminator_def same_ignoring_case_def)
    next
      case (Cons x xs)
      with False Cons.IH [of xs] show ?thesis
        by (auto simp add: term_of_def glob_no_terminator_def same_ignoring_case_def)
    qed
  next
    case True
    show ?thesis
    proof
      assume "regex_matches (map term_of (c # p)) url"
      with True obtain k where k: "k \<le> length url"
        "list_all (\<lambda>c. \<not> line_terminator c) (take k url)" "regex_matches (map term_of p) (drop k url)"
        by (auto simp add: term_of_def regex_matches_star)
      with Cons.IH [of "drop k url"] obtain runs where runs:
        "list_all (list_all (\<lambda>c. \<not> line_terminator c)) runs"
        "map canonicalize (drop k url) = map canonicalize (instantiate p runs)"
        by (auto simp add: glob_no_terminator_def same_ignoring_case_def)
      have "map canonicalize url = map canonicalize (take k url @ drop k url)"
        by simp
      also have "\<dots> = map canonicalize (take k url @ instantiate p runs)"
        using runs(2) by (simp del: append_take_drop_id)
      finally have "map canonicalize url = map canonicalize (instantiate (c # p) (take k url # runs))"
        using True by simp
      moreover have "list_all (list_all (\<lambda>c. \<not> line_terminator c)) (take k url # runs)"
        using k(2) runs(1) by simp
      ultimately show "glob_no_terminator (c # p) url"
        unfolding glob_no_terminator_def same_ignoring_case_def by blast
    next
      assume "glob_no_terminator (c # p) url"
      then obtain runs where runs: "list_all (list_all (\<lambda>c. \<not> line_terminator c)) runs"
        "map canonicalize url = map canonicalize (instantiate (c # p) runs)"
        by (auto simp add: glob_no_terminator_def same_ignoring_case_def)
      define r where "r = (case runs of [] \<Rightarrow> [] | r # rs \<Rightarrow> r)"
      define rs where "rs = (case runs of [] \<Rightarrow> [] | r # rs \<Rightarrow> rs)"
      have inst: "instantiate (c # p) runs = r @ instantiate p rs"
        using True by (simp add: r_def rs_def split: list.splits)
      have ok: "list_all (\<lambda>c. \<not> line_terminator c) r" "list_all (list_all (\<lambda>c. \<not> line_terminator c)) rs"
        using runs(1) by (cases runs; simp add: r_def rs_def)+
      from runs(2) inst have eq: "map canonicalize url = map canonicalize r @ map canonicalize (instantiate p rs)"
        by simp
      then have len: "length r \<le> length url"
        by (metis length_append length_map le_add1)
      from eq have "take (length r) (map canonicalize url) = map canonicalize r"
        by simp
      then have tk: "map canonicalize (take (length r) url) = map canonicalize r"
        by (simp add: take_map)
      from eq have "drop (length r) (map canonicalize url) = map canonicalize (instantiate p rs)"
        by simp
      then have dr: "map canonicalize (drop (length r) url) = map canonicalize (instantiate p rs)"
        by (simp add: drop_map)
      from tk ok(1) have "list_all (\<lambda>c. \<not> line_terminator c) (take (length r) url)"
        using canonicalize_no_terminators by blast
      moreover from dr ok(2) have "glob_no_terminator p (drop (length r) url)"
        unfolding glob_no_terminator_def same_ignoring_case_def by blast
      ultimately have "\<exists>k\<le>length url. list_all (\<lambda>c. \<not> line_terminator c) (take k url)
             \<and> regex_matches (map term_of p) (drop k url)"
        using len Cons.IH [of "drop (length r) url"] by blast
      with True show "regex_matches (map term_of (c # p)) url"
        by (simp add: term_of_def regex_matches_star)
    qed
  qed
qed

lemma matchesPattern_glob:
  "matchesPattern url pattern = Inr (glob_no_terminator pattern url)"
  by (simp add: matchesPattern_eq regex_matches_glob)

lemma instantiate_trim:
  assumes "list_all (\<lambda>c. \<not> line_terminator c) (instantiate pattern runs)"
  shows "\<exists>runs'. list_all (list_all (\<lambda>c. \<not> line_terminator c)) runs'
           \<and> instantiate pattern runs' = instantiate pattern runs"
  using assms
proof (induction pattern arbitrary: runs)
  case Nil
  have "list_all (list_all (\<lambda>c. \<not> line_terminator c)) [] \<and> instantiate [] [] = instantiate [] runs"
    by simp
  then show ?case by blast
next
  case (Cons c p)
  show ?case
  proof (cases "c = CHR ''*''")
    case False
    with Cons.prems have "list_all (\<lambda>c. \<not> line_terminator c) (instantiate p runs)"
      by simp
    with Cons.IH obtain runs' where "list_all (list_all (\<lambda>c. \<not> line_terminator c)) runs'"
      "instantiate p runs' = instantiate p runs"
      by blast
    with False have "list_all (list_all (\<lambda>c. \<not> line_terminator c)) runs'
        \<and> instantiate (c # p) runs' = instantiate (c # p) runs"
      by simp
    then show ?thesis by blast
  next
    case True
    define r where "r = (case runs of [] \<Rightarrow> [] | r # rs \<Rightarrow> r)"
    define rs where "rs = (case runs of [] \<Rightarrow> [] | r # rs \<Rightarrow> rs)"
    have inst: "instantiate (c # p) runs = r @ instantiate p rs"
      using True by (simp add: r_def rs_def split: list.splits)
    with Cons.prems have ok: "list_all (\<lambda>c. \<not> line_terminator c) r"
      "list_all (\<lambda>c. \<not> line_terminator c) (instantiate p rs)"
      by simp_all
    with Cons.IH obtain rs' where rs': "list_all (list_all (\<lambda>c. \<not> line_terminator c)) rs'"
      "instantiate p rs' = instantiate p rs"
      by blast
    with ok(1) inst True have "list_all (list_all (\<lambda>c. \<not> line_terminator c)) (r # rs')
        \<and> instantiate (c # p) (r # rs') = instantiate (c # p) runs"
      by simp
    then show ?thesis by blast
  qed
qed

lemma glob_spec_no_terminator:
  assumes "list_all (\<lambda>c. \<not> line_terminator c) url"
  shows "glob_no_terminator pattern url = glob_spec pattern url"
proof
  assume "glob_no_terminator pattern url"
  then show "glob_spec pattern url"
    unfolding glob_no_terminator_def glob_spec_def by blast
next
  assume "glob_spec pattern url"
  then obtain runs where runs: "map canonicalize url = map canonicalize (instantiate pattern runs)"
    by (auto simp add: glob_spec_def same_ignoring_case_def)
  with assms have "list_all (\<lambda>c. \<not> line_terminator c) (instantiate pattern runs)"
    using canonicalize_no_terminators by blast
  then obtain runs' where "list_all (list_all (\<lambda>c. \<not> line_terminator c)) runs'"
    "instantiate pattern runs' = instantiate pattern runs"
    using instantiate_trim by blast
  with runs show "glob_no_terminator pattern url"
    unfolding glob_no_terminator_def same_ignoring_case_def by metis
qed

text \<open>
  On a target without line terminators \<open>matchesPattern\<close> decides the matching of the
  specification: anchored at both ends, letters compared up to case, \<^verbatim>\<open>*\<close> standing for
  any run and every other character for itself.
\<close>

theorem matchesPattern_glob_spec:
  assumes "list_all (\<lambda>c. \<not> line_terminator c) url"
  shows "matchesPattern url pattern = Inr (glob_spec pattern url)"
  using assms by (simp add: matchesPattern_glob glob_spec_no_terminator)

theorem matchesPattern_glob_spec_witness:
  "list_all (\<lambda>c. \<not> line_terminator c) ''/API/Users/42''
   \<and> glob_spec ''/api/users/*'' ''/API/Users/42''
   \<and> \<not> glob_spec ''a.c'' ''abc''"
proof -
  have a: "list_all (\<lambda>c. \<not> line_terminator c) ''/API/Users/42''"
    by (simp add: line_terminator_def)
  have b: "list_all (\<lambda>c. \<not> line_terminator c) ''abc''"
    by (simp add: line_terminator_def)
  have "matchesPattern ''/API/Users/42'' ''/api/users/*'' = Inr True"
    by code_simp
  moreover have "matchesPattern ''abc'' ''a.c'' = Inr False"
    by code_simp
  ultimately show ?thesis
    using matchesPattern_glob_spec [OF a, of "''/api/users/*''"] matchesPattern_glob_spec [OF b, of "''a.c''"] a
    by simp
qed

text \<open>
  Letters beyond ASCII are compared up to case as well: \<^verbatim>\<open>/CAF\<close> followed by the capital
  E with acute (201) matches the pattern \<^verbatim>\<open>/caf\<close> followed by the small one (233); the
  multiplication sign (215) does not match the division sign (247).
\<close>

lemma matchesPattern_latin1:
  "matchesPattern (''/CAF'' @ [CHR 0xC9]) (''/caf'' @ [CHR 0xE9]) = Inr True
   \<and> matchesPattern [CHR 0xD7] [CHR 0xF7] = Inr False"
  by code_simp

text \<open>
  Claim C5. The wildcard does not match a run that holds a line terminator: the pattern
  \<^verbatim>\<open>*\<close> does not match the target made of one line feed, which the matching of the
  specification accepts. The three examples of the claim come out as it says.
\<close>

theorem matchesPattern_newline:
  "matchesPattern [CHR 0x0A] ''*'' = Inr False \<and> glob_spec ''*'' [CHR 0x0A]
   \<and> matchesPattern ''/api/users/42'' ''/api/users/*'' = Inr True
   \<and> matchesPattern ''/api/users/'' ''/api/users/*'' = Inr True
   \<and> matchesPattern ''/api/orders/1'' ''/api/users/*'' = Inr False"
proof -
  have "same_ignoring_case [CHR 0x0A] (instantiate ''*'' [[CHR 0x0A]])"
    by (simp add: same_ignoring_case_def)
  then have "glob_spec ''*'' [CHR 0x0A]"
    unfolding glob_spec_def by blast
  moreover have "matchesPattern [CHR 0x0A] ''*'' = Inr False"
    by (simp add: matchesPattern_def special_chars_def syntax_chars_def line_terminator_def)
  moreover have "matchesPattern ''/api/users/42'' ''/api/users/*'' = Inr True"
    by code_simp
  moreover have "matchesPattern ''/api/users/'' ''/api/users/*'' = Inr True"
    by code_simp
  moreover have "matchesPattern ''/api/orders/1'' ''/api/users/*'' = Inr False"
    by code_simp
  ultimately show ?thesis by blast
qed

section \<open>The evaluator: order of evaluation and the first denial\<close>

text \<open>
  A rule is applicable to a request when the inner loop does not skip it: a rule of kind
  \<^verbatim>\<open>API\<close> needs a target identifier that is neither absent nor empty and, when it has a
  non-empty pattern, a target that matches the pattern.
\<close>

definition applicable :: "RateLimitRule \<Rightarrow> string option \<Rightarrow> bool" where
  "applicable rule apiUrl =
     (if rule_type rule = API
      then \<not> falsy apiUrl
           \<and> (falsy (api_pattern rule)
                \<or> matchesPattern (the apiUrl) (the (api_pattern rule)) = Inr True)
      else True)"

text \<open>The order of evaluation: the kinds in the order GENERAL, IP, API; within a kind, the order of the list.\<close>

definition evaluation_order :: "RateLimitRule list \<Rightarrow> RateLimitRule list" where
  "evaluation_order rules =
     filter (\<lambda>rule. rule_type rule = GENERAL) rules
     @ filter (\<lambda>rule. rule_type rule = IP) rules
     @ filter (\<lambda>rule. rule_type rule = API) rules"

text \<open>The window index of the \<open>n\<close>-th reading of the clock, for a window length.\<close>

definition window_at :: "world \<Rightarrow> nat \<Rightarrow> int \<Rightarrow> int" where
  "window_at w n windowSeconds = \<lfloor>real (clock w n) / 1000 / real_of_int windowSeconds\<rfloor>"

text \<open>Example rules and environments: a per-source rule, an endpoint rule, a used-up counter.\<close>

definition ip_rule :: "int \<Rightarrow> int \<Rightarrow> RateLimitRule" where
  "ip_rule l s = \<lparr>rule_id = ''r2'', tenant_id = ''T'', rule_type = IP, limit = l,
      window_seconds = s, api_pattern = None\<rparr>"

definition exhausted_world :: world where
  "exhausted_world =
     (quiet_world 100000 [ip_rule 100 60, general_rule 5 60])
       \<lparr>redis_kv := [''rate_limit:T:GENERAL:general:1'' \<mapsto> 5]\<rparr>"

definition api_rule :: "int \<Rightarrow> int \<Rightarrow> string option \<Rightarrow> RateLimitRule" where
  "api_rule l s p = \<lparr>rule_id = ''r3'', tenant_id = ''T'', rule_type = API, limit = l,
      window_seconds = s, api_pattern = p\<rparr>"

lemma rules_loop_append:
  "rules_loop (xs @ ys) tenantId ipAddress apiUrl w =
     (case rules_loop xs tenantId ipAddress apiUrl w of
        (Inr None, w1) \<Rightarrow> rules_loop ys tenantId ipAddress apiUrl w1
      | (Inr (Some result), w1) \<Rightarrow> (Inr (Some result), w1)
      | (Inl e, w1) \<Rightarrow> (Inl e, w1))"
proof (induction xs arbitrary: w)
  case Nil
  show ?case by simp
next
  case (Cons x xs)
  show ?case
    by (simp add: Cons.IH split: sum.splits bool.splits prod.splits option.splits)
qed

lemma types_loop_order:
  "types_loop [GENERAL, IP, API] rules tenantId ipAddress apiUrl w =
     rules_loop (evaluation_order rules) tenantId ipAddress apiUrl w"
  by (simp add: evaluation_order_def rules_loop_append Let_def
      split: sum.splits prod.splits option.splits)

lemma rules_loop_skip:
  assumes "\<not> applicable rule apiUrl"
  shows "rules_loop (rule # rest) tenantId ipAddress apiUrl w = rules_loop rest tenantId ipAddress apiUrl w"
proof (cases "rule_type rule = API \<and> falsy apiUrl")
  case True
  then show ?thesis by simp
next
  case False
  with assms have m: "rule_type rule = API" "\<not> falsy (api_pattern rule)"
    "matchesPattern (the apiUrl) (the (api_pattern rule)) \<noteq> Inr True"
    by (auto simp add: applicable_def split: if_splits)
  then have "matchesPattern (the apiUrl) (the (api_pattern rule)) = Inr False"
    by (simp add: matchesPattern_eq)
  with False m show ?thesis by simp
qed

lemma rules_loop_check:
  assumes "applicable rule apiUrl"
  shows "rules_loop (rule # rest) tenantId ipAddress apiUrl w =
     (case checkRule rule tenantId ipAddress apiUrl w of
        (Inl e, w1) \<Rightarrow> (Inl e, w1)
      | (Inr result, w1) \<Rightarrow>
          if \<not> allowed result then (Inr (Some result), w1)
          else rules_loop rest tenantId ipAddress apiUrl w1)"
  using assms by (auto simp add: applicable_def split: if_splits)

lemma rules_loop_denied:
  assumes "rules_loop rs tenantId ipAddress apiUrl w = (Inr (Some d), w')"
  shows "\<exists>pre r post wp. rs = pre @ r # post
           \<and> rules_loop pre tenantId ipAddress apiUrl w = (Inr None, wp)
           \<and> applicable r apiUrl
           \<and> checkRule r tenantId ipAddress apiUrl wp = (Inr d, w')
           \<and> \<not> allowed d"
  using assms
proof (induction rs arbitrary: w)
  case Nil
  then show ?case by simp
next
  case (Cons x xs)
  show ?case
  proof (cases "applicable x apiUrl")
    case False
    with Cons.prems have "rules_loop xs tenantId ipAddress apiUrl w = (Inr (Some d), w')"
      by (simp add: rules_loop_skip del: rules_loop.simps)
    with Cons.IH obtain pre r post wp where
      "xs = pre @ r # post" "rules_loop pre tenantId ipAddress apiUrl w = (Inr None, wp)"
      "applicable r apiUrl" "checkRule r tenantId ipAddress apiUrl wp = (Inr d, w')" "\<not> allowed d"
      by blast
    with False have "x # xs = (x # pre) @ r # post
        \<and> rules_loop (x # pre) tenantId ipAddress apiUrl w = (Inr None, wp)
        \<and> applicable r apiUrl \<and> checkRule r tenantId ipAddress apiUrl wp = (Inr d, w') \<and> \<not> allowed d"
      by (simp add: rules_loop_skip del: rules_loop.simps)
    then show ?thesis by blast
  next
    case True
    note step = rules_loop_check [OF True, of _ tenantId ipAddress w]
    obtain res w1 where c: "checkRule x tenantId ipAddress apiUrl w = (res, w1)"
      by (cases "checkRule x tenantId ipAddress apiUrl w")
    with Cons.prems step [of xs] obtain r1 where r1: "res = Inr r1"
      by (cases res) auto
    show ?thesis
    proof (cases "allowed r1")
      case False
      with Cons.prems step [of xs] c r1 have "r1 = d" "w1 = w'" by auto
      with c r1 False True have "x # xs = [] @ x # xs
          \<and> rules_loop [] tenantId ipAddress apiUrl w = (Inr None, w)
          \<and> applicable x apiUrl \<and> checkRule x tenantId ipAddress apiUrl w = (Inr d, w') \<and> \<not> allowed d"
        by simp
      then show ?thesis by blast
    next
      case pass: True
      with Cons.prems step [of xs] c r1
      have "rules_loop xs tenantId ipAddress apiUrl w1 = (Inr (Some d), w')" by simp
      with Cons.IH obtain pre r post wp where p:
        "xs = pre @ r # post" "rules_loop pre tenantId ipAddress apiUrl w1 = (Inr None, wp)"
        "applicable r apiUrl" "checkRule r tenantId ipAddress apiUrl wp = (Inr d, w')" "\<not> allowed d"
        by blast
      from step [of pre] c r1 pass p(2)
      have "rules_loop (x # pre) tenantId ipAddress apiUrl w = (Inr None, wp)" by simp
      with p have "x # xs = (x # pre) @ r # post
          \<and> rules_loop (x # pre) tenantId ipAddress apiUrl w = (Inr None, wp)
          \<and> applicable r apiUrl \<and> checkRule r tenantId ipAddress apiUrl wp = (Inr d, w') \<and> \<not> allowed d"
        by simp
      then show ?thesis by blast
    qed
  qed
qed

lemma checkRule_denial_names_rule:
  assumes "checkRule r tenantId ipAddress apiUrl w = (Inr d, w')" and "\<not> allowed d"
  shows "result_limit d = Some (limit r) \<and> message d = Some (exceeded_message r) \<and> remaining d = Some 0"
  using assms
  by (auto simp add: checkRule_def Let_def split: prod.splits sum.splits if_splits)

lemma checkRule_frame:
  assumes "checkRule r tenantId ipAddress apiUrl w = (res, w')"
  shows "clock w' = clock w \<and> clock_reads w' = Suc (clock_reads w) \<and> faults w' = faults w
         \<and> io_calls w < io_calls w' \<and> db_log w' = db_log w \<and> db_rows w' = db_rows w"
  using assms
  by (auto simp add: checkRule_def getCurrentWindow_def Date_now_def incrementCounter_def
      redis_incr_def redis_expire_def Let_def split: if_splits)

lemma checkRule_log:
  assumes "checkRule r tenantId ipAddress apiUrl w = (res, w')"
    and "key = redisKey_of tenantId r (identifier_of r ipAddress apiUrl)
                 (window_at w (clock_reads w) (window_seconds r))"
  shows "redis_log w' = redis_log w @ [INCR key]
         \<or> redis_log w' = redis_log w @ [INCR key, EXPIRE key (window_seconds r)]"
  using assms
  by (auto simp add: checkRule_def getCurrentWindow_def Date_now_def incrementCounter_def
      redis_incr_def redis_expire_def window_at_def Let_def split: if_splits)

lemma checkRule_no_fault:
  assumes "checkRule r tenantId ipAddress apiUrl w = (Inr d, w')"
    and "io_calls w \<le> n" and "n < io_calls w'"
  shows "\<not> faults w n"
  using assms
  by (auto simp add: checkRule_def getCurrentWindow_def Date_now_def incrementCounter_def
      redis_incr_def redis_expire_def Let_def less_Suc_eq split: if_splits)

lemma checkRule_kv_frame:
  assumes "k \<noteq> redisKey_of tenantId r (identifier_of r ipAddress apiUrl)
                 (window_at w (clock_reads w) (window_seconds r))"
  shows "redis_kv (snd (checkRule r tenantId ipAddress apiUrl w)) k = redis_kv w k"
  using assms
  by (auto simp add: checkRule_def getCurrentWindow_def Date_now_def incrementCounter_def
      redis_incr_def redis_expire_def window_at_def Let_def split: if_splits)

lemma checkRule_api_pattern:
  "checkRule (r\<lparr>api_pattern := p\<rparr>) tenantId ipAddress apiUrl w = checkRule r tenantId ipAddress apiUrl w"
  by (simp add: checkRule_def identifier_of_def redisKey_of_def exceeded_message_def Let_def
      split: prod.split sum.split)

lemma checkRateLimit_denied:
  assumes "checkRateLimit this tenantId ipAddress apiUrl w = (d, this', w')" and "\<not> allowed d"
  shows "\<exists>rules w1. loadRulesForTenant this tenantId w = (Inr rules, this', w1)
           \<and> rules_loop (evaluation_order rules) tenantId ipAddress apiUrl w1 = (Inr (Some d), w')"
proof -
  obtain res this1 w1 where l: "loadRulesForTenant this tenantId w = (res, this1, w1)"
    by (cases "loadRulesForTenant this tenantId w")
  obtain lres w2 where t: "types_loop [GENERAL, IP, API] (case res of Inr rules \<Rightarrow> rules | Inl e \<Rightarrow> [])
                             tenantId ipAddress apiUrl w1 = (lres, w2)"
    by (cases "types_loop [GENERAL, IP, API] (case res of Inr rules \<Rightarrow> rules | Inl e \<Rightarrow> [])
                 tenantId ipAddress apiUrl w1")
  from assms l t obtain rules where "res = Inr rules" "this1 = this'" "lres = Inr (Some d)" "w2 = w'"
    by (cases res; cases lres)
       (auto simp add: checkRateLimit_def checkRateLimit_try_def simp del: types_loop.simps
         split: if_splits option.splits)
  with l t show ?thesis
    by (simp add: types_loop_order del: types_loop.simps)
qed

lemma show_int_examples:
  "show_int 1 = ''1''" "show_int 2 = ''2''" "show_int 3 = ''3''" "show_int 5 = ''5''" "show_int 30 = ''30''"
  "show_int 60 = ''60''" "show_int 100 = ''100''"
  by code_simp+

lemma exhausted_run:
  "checkRateLimit empty_limiter ''T'' ''1.2.3.4'' None exhausted_world =
     (\<lparr>allowed = False, result_limit = Some 5, remaining = Some 0, resetTime = Some 120,
       message = Some ''Rate limit exceeded for GENERAL rule. Limit: 5 requests per 60s''\<rparr>,
      \<lparr>rulesCache = [''T'' \<mapsto> [ip_rule 100 60, general_rule 5 60]], cacheExpiry = [''T'' \<mapsto> 160000]\<rparr>,
      exhausted_world\<lparr>clock_reads := 2, io_calls := 2, db_log := [''T''],
        redis_kv := [''rate_limit:T:GENERAL:general:1'' \<mapsto> 6],
        redis_log := [INCR ''rate_limit:T:GENERAL:general:1'']\<rparr>)"
  by (simp add: checkRateLimit_def checkRateLimit_try_def loadRulesForTenant_def Date_now_def
      query_def CACHE_TTL_def checkRule_def getCurrentWindow_def incrementCounter_def
      redis_incr_def redis_expire_def identifier_of_def redisKey_of_def exceeded_message_def
      falsy_def empty_limiter_def exhausted_world_def quiet_world_def ip_rule_def general_rule_def
      show_int_examples Let_def)

text \<open>
  \<open>all_pass rules\<close>: the applicable rules of a list are checked one after the other, in
  the order of the list, and every check answers and allows; the result is the
  environment the last check leaves. It is \<open>None\<close> as soon as a check denies or throws.
\<close>

fun all_pass ::
  "RateLimitRule list \<Rightarrow> string \<Rightarrow> string \<Rightarrow> string option \<Rightarrow> world \<Rightarrow> world option" where
  "all_pass [] tenantId ipAddress apiUrl w = Some w"
| "all_pass (rule # rest) tenantId ipAddress apiUrl w =
     (if \<not> applicable rule apiUrl then all_pass rest tenantId ipAddress apiUrl w
      else (case checkRule rule tenantId ipAddress apiUrl w of
              (Inr d, w1) \<Rightarrow> if allowed d then all_pass rest tenantId ipAddress apiUrl w1 else None
            | (Inl e, w1) \<Rightarrow> None))"

text \<open>The decision \<^verbatim>\<open>{ allowed: true }\<close>.\<close>

definition allowed_decision :: RateLimitResult where
  "allowed_decision =
     \<lparr>allowed = True, result_limit = None, remaining = None, resetTime = None, message = None\<rparr>"

text \<open>
  A tenant whose list holds an endpoint rule, a per-source rule (limit 1) and a tenant-wide
  rule (limit 5), in that order; the tenant-wide counter stands at 2 and the counter of
  source \<^verbatim>\<open>1.2.3.4\<close> at 1.
\<close>

definition busy_world :: world where
  "busy_world =
     (quiet_world 100000 [api_rule 10 60 (Some ''/x*''), ip_rule 1 60, general_rule 5 60])
       \<lparr>redis_kv := [''rate_limit:T:GENERAL:general:1'' \<mapsto> 2, ''rate_limit:T:IP:1.2.3.4:1'' \<mapsto> 1]\<rparr>"

lemma all_pass_rules_loop:
  "all_pass rs tenantId ipAddress apiUrl w = Some w'
     \<longleftrightarrow> rules_loop rs tenantId ipAddress apiUrl w = (Inr None, w')"
proof (induction rs arbitrary: w)
  case Nil
  show ?case by auto
next
  case (Cons r rs)
  show ?case
  proof (cases "applicable r apiUrl")
    case False
    then show ?thesis
      using Cons.IH [of w] by (simp add: rules_loop_skip del: rules_loop.simps)
  next
    case True
    obtain res w1 where c: "checkRule r tenantId ipAddress apiUrl w = (res, w1)"
      by (cases "checkRule r tenantId ipAddress apiUrl w")
    show ?thesis
    proof (cases res)
      case (Inl e)
      with True c show ?thesis
        by (simp add: rules_loop_check del: rules_loop.simps)
    next
      case (Inr d)
      with True c Cons.IH [of w1] show ?thesis
        by (simp add: rules_loop_check del: rules_loop.simps)
    qed
  qed
qed

lemma checkRateLimit_by_rules_loop:
  assumes "loadRulesForTenant this tenantId w = (Inr rules, this1, w1)"
  shows "checkRateLimit this tenantId ipAddress apiUrl w =
     (case rules_loop (evaluation_order rules) tenantId ipAddress apiUrl w1 of
        (Inl e, w2) \<Rightarrow>
          (\<lparr>allowed = True, result_limit = None, remaining = None, resetTime = None,
            message = Some ''Rate limiter error, allowing request''\<rparr>, this1, w2)
      | (Inr (Some d), w2) \<Rightarrow> (d, this1, w2)
      | (Inr None, w2) \<Rightarrow> (allowed_decision, this1, w2))"
proof (cases "rules = []")
  case True
  with assms show ?thesis
    by (simp add: checkRateLimit_def checkRateLimit_try_def evaluation_order_def allowed_decision_def)
next
  case False
  with assms show ?thesis
    by (simp add: checkRateLimit_def checkRateLimit_try_def types_loop_order allowed_decision_def
        del: types_loop.simps split: prod.splits sum.splits option.splits)
qed

lemma checkRateLimit_stops:
  assumes "loadRulesForTenant this tenantId w = (Inr rules, this1, w1)"
    and "evaluation_order rules = pre @ r # post"
    and "all_pass pre tenantId ipAddress apiUrl w1 = Some wp"
    and "applicable r apiUrl"
    and "checkRule r tenantId ipAddress apiUrl wp = (Inr d, w')" and "\<not> allowed d"
  shows "checkRateLimit this tenantId ipAddress apiUrl w = (d, this1, w')"
proof -
  from assms(3) have "rules_loop pre tenantId ipAddress apiUrl w1 = (Inr None, wp)"
    by (simp add: all_pass_rules_loop)
  moreover from assms(4,5,6) have "rules_loop (r # post) tenantId ipAddress apiUrl wp = (Inr (Some d), w')"
    by (simp add: rules_loop_check del: rules_loop.simps)
  ultimately have "rules_loop (evaluation_order rules) tenantId ipAddress apiUrl w1 = (Inr (Some d), w')"
    unfolding assms(2) by (simp add: rules_loop_append del: rules_loop.simps)
  then show ?thesis
    by (simp add: checkRateLimit_by_rules_loop [OF assms(1)])
qed

lemma checkRateLimit_all_pass:
  assumes "loadRulesForTenant this tenantId w = (Inr rules, this1, w1)"
    and "all_pass (evaluation_order rules) tenantId ipAddress apiUrl w1 = Some w'"
  shows "checkRateLimit this tenantId ipAddress apiUrl w = (allowed_decision, this1, w')"
proof -
  from assms(2) have "rules_loop (evaluation_order rules) tenantId ipAddress apiUrl w1 = (Inr None, w')"
    by (simp add: all_pass_rules_loop)
  then show ?thesis
    by (simp add: checkRateLimit_by_rules_loop [OF assms(1)])
qed

text \<open>
  Claim C3. Let \<open>rules\<close> be the tenant's list as loaded, and take its rules in the order
  GENERAL, then IP, then API, each kind in the order of the list. (1) If that sequence is
  \<open>pre @ r # post\<close>, every applicable rule of \<open>pre\<close> is checked in turn and passes, and the
  check of the applicable rule \<open>r\<close> finds its limit exceeded, then \<open>checkRateLimit\<close> returns
  the decision of \<open>r\<close>'s check, which carries \<open>r\<close>'s limit and the message of \<open>r\<close>, and the
  environment that check leaves: the commands sent after \<open>pre\<close> are the INCR of \<open>r\<close>'s key
  and, at most, the EXPIRE of that key, so no counter of a rule of \<open>post\<close> is incremented.
  (2) If every applicable rule of the whole sequence is checked in turn and passes,
  \<open>checkRateLimit\<close> allows the request and returns the environment the last check leaves.
  (3) Conversely, every denial \<open>checkRateLimit\<close> returns arises as in (1).
\<close>

theorem evaluation_order_and_stop:
  "(loadRulesForTenant this tenantId w = (Inr rules, this1, w1)
      \<and> filter (\<lambda>rule. rule_type rule = GENERAL) rules
          @ filter (\<lambda>rule. rule_type rule = IP) rules
          @ filter (\<lambda>rule. rule_type rule = API) rules = pre @ r # post
      \<and> all_pass pre tenantId ipAddress apiUrl w1 = Some wp
      \<and> applicable r apiUrl
      \<and> checkRule r tenantId ipAddress apiUrl wp = (Inr d, w') \<and> \<not> allowed d
    \<longrightarrow> checkRateLimit this tenantId ipAddress apiUrl w = (d, this1, w')
        \<and> result_limit d = Some (limit r) \<and> message d = Some (exceeded_message r)
        \<and> (redis_log w' = redis_log wp
               @ [INCR (redisKey_of tenantId r (identifier_of r ipAddress apiUrl)
                          (window_at wp (clock_reads wp) (window_seconds r)))]
            \<or> redis_log w' = redis_log wp
               @ [INCR (redisKey_of tenantId r (identifier_of r ipAddress apiUrl)
                          (window_at wp (clock_reads wp) (window_seconds r))),
                  EXPIRE (redisKey_of tenantId r (identifier_of r ipAddress apiUrl)
                          (window_at wp (clock_reads wp) (window_seconds r))) (window_seconds r)]))
   \<and> (loadRulesForTenant this tenantId w = (Inr rules, this1, w1)
      \<and> all_pass (filter (\<lambda>rule. rule_type rule = GENERAL) rules
                   @ filter (\<lambda>rule. rule_type rule = IP) rules
                   @ filter (\<lambda>rule. rule_type rule = API) rules) tenantId ipAddress apiUrl w1 = Some w'
    \<longrightarrow> checkRateLimit this tenantId ipAddress apiUrl w
          = (\<lparr>allowed = True, result_limit = None, remaining = None, resetTime = None,
              message = None\<rparr>, this1, w'))
   \<and> (checkRateLimit this tenantId ipAddress apiUrl w = (d, this', w') \<and> \<not> allowed d \<longrightarrow>
        (\<exists>rules' w1' pre' r' post' wp'.
            loadRulesForTenant this tenantId w = (Inr rules', this', w1')
          \<and> filter (\<lambda>rule. rule_type rule = GENERAL) rules'
              @ filter (\<lambda>rule. rule_type rule = IP) rules'
              @ filter (\<lambda>rule. rule_type rule = API) rules' = pre' @ r' # post'
          \<and> all_pass pre' tenantId ipAddress apiUrl w1' = Some wp'
          \<and> applicable r' apiUrl
          \<and> checkRule r' tenantId ipAddress apiUrl wp' = (Inr d, w')))"
proof (intro conjI impI)
  assume a: "loadRulesForTenant this tenantId w = (Inr rules, this1, w1)
      \<and> filter (\<lambda>rule. rule_type rule = GENERAL) rules
          @ filter (\<lambda>rule. rule_type rule = IP) rules
          @ filter (\<lambda>rule. rule_type rule = API) rules = pre @ r # post
      \<and> all_pass pre tenantId ipAddress apiUrl w1 = Some wp
      \<and> applicable r apiUrl
      \<and> checkRule r tenantId ipAddress apiUrl wp = (Inr d, w') \<and> \<not> allowed d"
  then have c: "checkRule r tenantId ipAddress apiUrl wp = (Inr d, w')" and n: "\<not> allowed d"
    by simp_all
  from a have o: "evaluation_order rules = pre @ r # post"
    by (simp add: evaluation_order_def)
  from a o show "checkRateLimit this tenantId ipAddress apiUrl w = (d, this1, w')"
    using checkRateLimit_stops by blast
  from checkRule_denial_names_rule [OF c n]
  show "result_limit d = Some (limit r)" and "message d = Some (exceeded_message r)"
    by simp_all
  from checkRule_log [OF c refl]
  show "redis_log w' = redis_log wp
               @ [INCR (redisKey_of tenantId r (identifier_of r ipAddress apiUrl)
                          (window_at wp (clock_reads wp) (window_seconds r)))]
            \<or> redis_log w' = redis_log wp
               @ [INCR (redisKey_of tenantId r (identifier_of r ipAddress apiUrl)
                          (window_at wp (clock_reads wp) (window_seconds r))),
                  EXPIRE (redisKey_of tenantId r (identifier_of r ipAddress apiUrl)
                          (window_at wp (clock_reads wp) (window_seconds r))) (window_seconds r)]" .
next
  assume "loadRulesForTenant this tenantId w = (Inr rules, this1, w1)
      \<and> all_pass (filter (\<lambda>rule. rule_type rule = GENERAL) rules
                   @ filter (\<lambda>rule. rule_type rule = IP) rules
                   @ filter (\<lambda>rule. rule_type rule = API) rules) tenantId ipAddress apiUrl w1 = Some w'"
  then have "loadRulesForTenant this tenantId w = (Inr rules, this1, w1)"
    and "all_pass (evaluation_order rules) tenantId ipAddress apiUrl w1 = Some w'"
    by (simp_all add: evaluation_order_def)
  from checkRateLimit_all_pass [OF this]
  show "checkRateLimit this tenantId ipAddress apiUrl w
          = (\<lparr>allowed = True, result_limit = None, remaining = None, resetTime = None,
              message = None\<rparr>, this1, w')"
    by (simp add: allowed_decision_def)
next
  assume a: "checkRateLimit this tenantId ipAddress apiUrl w = (d, this', w') \<and> \<not> allowed d"
  then obtain rules' w1' where l: "loadRulesForTenant this tenantId w = (Inr rules', this', w1')"
    "rules_loop (evaluation_order rules') tenantId ipAddress apiUrl w1' = (Inr (Some d), w')"
    using checkRateLimit_denied by blast
  from rules_loop_denied [OF l(2)] obtain pre' r' post' wp' where p:
    "evaluation_order rules' = pre' @ r' # post'"
    "rules_loop pre' tenantId ipAddress apiUrl w1' = (Inr None, wp')"
    "applicable r' apiUrl" "checkRule r' tenantId ipAddress apiUrl wp' = (Inr d, w')"
    by blast
  from p(2) have "all_pass pre' tenantId ipAddress apiUrl w1' = Some wp'"
    by (simp add: all_pass_rules_loop)
  with l(1) p(1,3,4) show "\<exists>rules' w1' pre' r' post' wp'.
            loadRulesForTenant this tenantId w = (Inr rules', this', w1')
          \<and> filter (\<lambda>rule. rule_type rule = GENERAL) rules'
              @ filter (\<lambda>rule. rule_type rule = IP) rules'
              @ filter (\<lambda>rule. rule_type rule = API) rules' = pre' @ r' # post'
          \<and> all_pass pre' tenantId ipAddress apiUrl w1' = Some wp'
          \<and> applicable r' apiUrl
          \<and> checkRule r' tenantId ipAddress apiUrl wp' = (Inr d, w')"
    unfolding evaluation_order_def by blast
qed

text \<open>The definitions that evaluate a call on a concrete environment.\<close>

lemmas run_defs = loadRulesForTenant_def Date_now_def query_def CACHE_TTL_def checkRule_def
  getCurrentWindow_def incrementCounter_def redis_incr_def redis_expire_def identifier_of_def
  redisKey_of_def exceeded_message_def falsy_def applicable_def Let_def

text \<open>
  The stages of the call for the tenant above from source \<^verbatim>\<open>1.2.3.4\<close> with target
  \<^verbatim>\<open>/x1\<close>: the cache after the load, the environment after the load, after the
  tenant-wide rule has passed, and after the per-source rule has denied; the denial.
\<close>

definition busy_cache :: RateLimiter where
  "busy_cache =
     \<lparr>rulesCache = [''T'' \<mapsto> [api_rule 10 60 (Some ''/x*''), ip_rule 1 60, general_rule 5 60]],
      cacheExpiry = [''T'' \<mapsto> 160000]\<rparr>"

definition busy_loaded :: world where
  "busy_loaded = busy_world\<lparr>clock_reads := 1, io_calls := 1, db_log := [''T'']\<rparr>"

definition busy_general_passed :: world where
  "busy_general_passed =
     busy_world\<lparr>clock_reads := 2, io_calls := 2, db_log := [''T''],
       redis_kv := (redis_kv busy_world)(''rate_limit:T:GENERAL:general:1'' \<mapsto> 3),
       redis_log := [INCR ''rate_limit:T:GENERAL:general:1'']\<rparr>"

definition busy_ip_denied :: world where
  "busy_ip_denied =
     busy_world\<lparr>clock_reads := 3, io_calls := 3, db_log := [''T''],
       redis_kv := (redis_kv busy_world)(''rate_limit:T:GENERAL:general:1'' \<mapsto> 3,
                                          ''rate_limit:T:IP:1.2.3.4:1'' \<mapsto> 2),
       redis_log := [INCR ''rate_limit:T:GENERAL:general:1'', INCR ''rate_limit:T:IP:1.2.3.4:1'']\<rparr>"

definition ip_denial :: RateLimitResult where
  "ip_denial =
     \<lparr>allowed = False, result_limit = Some 1, remaining = Some 0, resetTime = Some 120,
      message = Some ''Rate limit exceeded for IP rule. Limit: 1 requests per 60s''\<rparr>"

text \<open>The stages of a first call for a tenant with one tenant-wide rule (limit 3, window 30 s).\<close>

definition fresh_loaded :: world where
  "fresh_loaded = (quiet_world 100000 [general_rule 3 30])\<lparr>clock_reads := 1, io_calls := 1, db_log := [''T'']\<rparr>"

definition fresh_passed :: world where
  "fresh_passed =
     (quiet_world 100000 [general_rule 3 30])\<lparr>clock_reads := 2, io_calls := 3, db_log := [''T''],
        redis_kv := [''rate_limit:T:GENERAL:general:3'' \<mapsto> 1],
        redis_ttl := [''rate_limit:T:GENERAL:general:3'' \<mapsto> 30],
        redis_log := [INCR ''rate_limit:T:GENERAL:general:3'', EXPIRE ''rate_limit:T:GENERAL:general:3'' 30]\<rparr>"

lemma busy_load:
  "loadRulesForTenant empty_limiter ''T'' busy_world
     = (Inr [api_rule 10 60 (Some ''/x*''), ip_rule 1 60, general_rule 5 60], busy_cache, busy_loaded)"
  by (simp add: run_defs empty_limiter_def busy_world_def quiet_world_def busy_cache_def busy_loaded_def)

lemma busy_order:
  "filter (\<lambda>rule. rule_type rule = GENERAL) [api_rule 10 60 (Some ''/x*''), ip_rule 1 60, general_rule 5 60]
     @ filter (\<lambda>rule. rule_type rule = IP) [api_rule 10 60 (Some ''/x*''), ip_rule 1 60, general_rule 5 60]
     @ filter (\<lambda>rule. rule_type rule = API) [api_rule 10 60 (Some ''/x*''), ip_rule 1 60, general_rule 5 60]
   = [general_rule 5 60] @ ip_rule 1 60 # [api_rule 10 60 (Some ''/x*'')]"
  by (simp add: api_rule_def ip_rule_def general_rule_def)

lemma busy_general:
  "all_pass [general_rule 5 60] ''T'' ''1.2.3.4'' (Some ''/x1'') busy_loaded = Some busy_general_passed"
  by (simp add: run_defs busy_loaded_def busy_general_passed_def busy_world_def quiet_world_def
      general_rule_def show_int_examples)

lemma busy_ip:
  "checkRule (ip_rule 1 60) ''T'' ''1.2.3.4'' (Some ''/x1'') busy_general_passed = (Inr ip_denial, busy_ip_denied)"
  by (simp add: run_defs busy_general_passed_def busy_ip_denied_def busy_world_def quiet_world_def
      ip_rule_def ip_denial_def show_int_examples)

lemma fresh_load:
  "loadRulesForTenant empty_limiter ''T'' (quiet_world 100000 [general_rule 3 30])
     = (Inr [general_rule 3 30],
        \<lparr>rulesCache = [''T'' \<mapsto> [general_rule 3 30]], cacheExpiry = [''T'' \<mapsto> 160000]\<rparr>, fresh_loaded)"
  by (simp add: run_defs empty_limiter_def quiet_world_def fresh_loaded_def)

lemma fresh_pass:
  "all_pass (filter (\<lambda>rule. rule_type rule = GENERAL) [general_rule 3 30]
             @ filter (\<lambda>rule. rule_type rule = IP) [general_rule 3 30]
             @ filter (\<lambda>rule. rule_type rule = API) [general_rule 3 30])
      ''T'' ''1.2.3.4'' None fresh_loaded = Some fresh_passed"
  by (simp add: run_defs fresh_loaded_def fresh_passed_def quiet_world_def general_rule_def
      show_int_examples)

text \<open>
  Three runs. The tenant-wide rule, listed last, is checked first and passes, the
  per-source rule denies, and the endpoint rule, listed first, is not checked: two INCR
  commands are sent. With one passing rule the request is allowed. In the scenario of the
  specification (a per-source rule with limit 100 listed before a tenant-wide rule with
  limit 5 whose counter stands at 5) the tenant-wide rule denies and only its INCR is sent.
\<close>

theorem evaluation_order_and_stop_witness:
  "checkRateLimit empty_limiter ''T'' ''1.2.3.4'' (Some ''/x1'') busy_world
     = (\<lparr>allowed = False, result_limit = Some 1, remaining = Some 0, resetTime = Some 120,
         message = Some ''Rate limit exceeded for IP rule. Limit: 1 requests per 60s''\<rparr>,
        busy_cache, busy_ip_denied)
   \<and> redis_log busy_ip_denied
       = [INCR ''rate_limit:T:GENERAL:general:1'', INCR ''rate_limit:T:IP:1.2.3.4:1'']
   \<and> checkRateLimit empty_limiter ''T'' ''1.2.3.4'' None (quiet_world 100000 [general_rule 3 30])
       = (\<lparr>allowed = True, result_limit = None, remaining = None, resetTime = None, message = None\<rparr>,
          \<lparr>rulesCache = [''T'' \<mapsto> [general_rule 3 30]], cacheExpiry = [''T'' \<mapsto> 160000]\<rparr>,
          fresh_passed)
   \<and> (\<exists>rules' w1' pre' r' post' wp'.
          loadRulesForTenant empty_limiter ''T'' exhausted_world
            = (Inr rules', fst (snd (checkRateLimit empty_limiter ''T'' ''1.2.3.4'' None exhausted_world)), w1')
        \<and> filter (\<lambda>rule. rule_type rule = GENERAL) rules'
            @ filter (\<lambda>rule. rule_type rule = IP) rules'
            @ filter (\<lambda>rule. rule_type rule = API) rules' = pre' @ r' # post'
        \<and> all_pass pre' ''T'' ''1.2.3.4'' None w1' = Some wp'
        \<and> applicable r' None
        \<and> checkRule r' ''T'' ''1.2.3.4'' None wp'
            = (Inr (fst (checkRateLimit empty_limiter ''T'' ''1.2.3.4'' None exhausted_world)),
               snd (snd (checkRateLimit empty_limiter ''T'' ''1.2.3.4'' None exhausted_world))))
   \<and> message (fst (checkRateLimit empty_limiter ''T'' ''1.2.3.4'' None exhausted_world))
       = Some ''Rate limit exceeded for GENERAL rule. Limit: 5 requests per 60s''
   \<and> redis_log (snd (snd (checkRateLimit empty_limiter ''T'' ''1.2.3.4'' None exhausted_world)))
       = [INCR ''rate_limit:T:GENERAL:general:1'']"
proof -
  have app: "applicable (ip_rule 1 60) (Some ''/x1'')"
    by (simp add: applicable_def ip_rule_def)
  have den: "\<not> allowed ip_denial"
    by (simp add: ip_denial_def)
  from evaluation_order_and_stop [of empty_limiter "''T''" busy_world
      "[api_rule 10 60 (Some ''/x*''), ip_rule 1 60, general_rule 5 60]" busy_cache busy_loaded
      "[general_rule 5 60]" "ip_rule 1 60" "[api_rule 10 60 (Some ''/x*'')]"
      "''1.2.3.4''" "Some ''/x1''" busy_general_passed ip_denial busy_ip_denied]
    busy_load busy_order busy_general app busy_ip den
  have "checkRateLimit empty_limiter ''T'' ''1.2.3.4'' (Some ''/x1'') busy_world
          = (ip_denial, busy_cache, busy_ip_denied)"
    by blast
  then have a: "checkRateLimit empty_limiter ''T'' ''1.2.3.4'' (Some ''/x1'') busy_world
     = (\<lparr>allowed = False, result_limit = Some 1, remaining = Some 0, resetTime = Some 120,
         message = Some ''Rate limit exceeded for IP rule. Limit: 1 requests per 60s''\<rparr>,
        busy_cache, busy_ip_denied)"
    by (simp only: ip_denial_def)
  have b: "redis_log busy_ip_denied
       = [INCR ''rate_limit:T:GENERAL:general:1'', INCR ''rate_limit:T:IP:1.2.3.4:1'']"
    by (simp add: busy_ip_denied_def)
  from evaluation_order_and_stop [of empty_limiter "''T''" "quiet_world 100000 [general_rule 3 30]"
      "[general_rule 3 30]" "\<lparr>rulesCache = [''T'' \<mapsto> [general_rule 3 30]], cacheExpiry = [''T'' \<mapsto> 160000]\<rparr>"
      fresh_loaded _ _ _ "''1.2.3.4''" None _ _ fresh_passed]
    fresh_load fresh_pass
  have c: "checkRateLimit empty_limiter ''T'' ''1.2.3.4'' None (quiet_world 100000 [general_rule 3 30])
       = (\<lparr>allowed = True, result_limit = None, remaining = None, resetTime = None, message = None\<rparr>,
          \<lparr>rulesCache = [''T'' \<mapsto> [general_rule 3 30]], cacheExpiry = [''T'' \<mapsto> 160000]\<rparr>,
          fresh_passed)"
    by blast
  let ?run = "checkRateLimit empty_limiter ''T'' ''1.2.3.4'' None exhausted_world"
  have hyp: "?run = (fst ?run, fst (snd ?run), snd (snd ?run)) \<and> \<not> allowed (fst ?run)"
    by (simp add: exhausted_run)
  from evaluation_order_and_stop [of empty_limiter "''T''" exhausted_world _ _ _ _ _ _
      "''1.2.3.4''" None _ "fst ?run" "snd (snd ?run)" "fst (snd ?run)"] hyp
  have d: "\<exists>rules' w1' pre' r' post' wp'.
          loadRulesForTenant empty_limiter ''T'' exhausted_world = (Inr rules', fst (snd ?run), w1')
        \<and> filter (\<lambda>rule. rule_type rule = GENERAL) rules'
            @ filter (\<lambda>rule. rule_type rule = IP) rules'
            @ filter (\<lambda>rule. rule_type rule = API) rules' = pre' @ r' # post'
        \<and> all_pass pre' ''T'' ''1.2.3.4'' None w1' = Some wp'
        \<and> applicable r' None
        \<and> checkRule r' ''T'' ''1.2.3.4'' None wp' = (Inr (fst ?run), snd (snd ?run))"
    by blast
  have e: "message (fst ?run) = Some ''Rate limit exceeded for GENERAL rule. Limit: 5 requests per 60s''"
    and f: "redis_log (snd (snd ?run)) = [INCR ''rate_limit:T:GENERAL:general:1'']"
    by (simp_all add: exhausted_run)
  from a b c d e f show ?thesis by blast
qed

section \<open>The decision when every rule passes\<close>

text \<open>
  Claim C1. With one tenant-wide rule (limit 3, window 30 s) and a fresh counter, the rule
  is applicable and passes, and \<open>checkRule\<close> reports limit 3, remaining 2 and reset time
  120; the decision \<open>checkRateLimit\<close> returns has \<open>allowed = True\<close> and none of the three
  figures.
\<close>

theorem allowed_without_figures:
  "checkRateLimit empty_limiter ''T'' ''1.2.3.4'' None (quiet_world 100000 [general_rule 3 30]) =
     (\<lparr>allowed = True, result_limit = None, remaining = None, resetTime = None, message = None\<rparr>,
      \<lparr>rulesCache = [''T'' \<mapsto> [general_rule 3 30]], cacheExpiry = [''T'' \<mapsto> 160000]\<rparr>,
      (quiet_world 100000 [general_rule 3 30])\<lparr>clock_reads := 2, io_calls := 3, db_log := [''T''],
        redis_kv := [''rate_limit:T:GENERAL:general:3'' \<mapsto> 1],
        redis_ttl := [''rate_limit:T:GENERAL:general:3'' \<mapsto> 30],
        redis_log := [INCR ''rate_limit:T:GENERAL:general:3'', EXPIRE ''rate_limit:T:GENERAL:general:3'' 30]\<rparr>)
   \<and> fst (checkRule (general_rule 3 30) ''T'' ''1.2.3.4'' None
             ((quiet_world 100000 [general_rule 3 30])\<lparr>clock_reads := 1, io_calls := 1, db_log := [''T'']\<rparr>))
       = Inr \<lparr>allowed = True, result_limit = Some 3, remaining = Some 2, resetTime = Some 120,
              message = None\<rparr>"
  by (simp add: checkRateLimit_def checkRateLimit_try_def loadRulesForTenant_def Date_now_def
      query_def CACHE_TTL_def checkRule_def getCurrentWindow_def incrementCounter_def
      redis_incr_def redis_expire_def identifier_of_def redisKey_of_def exceeded_message_def
      falsy_def empty_limiter_def quiet_world_def general_rule_def
      show_int_examples Let_def)

lemma rules_loop_Some_denies:
  assumes "rules_loop rs tenantId ipAddress apiUrl w = (Inr (Some d), w')"
  shows "\<not> allowed d"
  using rules_loop_denied [OF assms] by blast

text \<open>Every decision of \<open>checkRateLimit\<close> that allows the request is without the three figures.\<close>

theorem checkRateLimit_allowed_no_figures:
  assumes "checkRateLimit this tenantId ipAddress apiUrl w = (d, this', w')" and "allowed d"
  shows "result_limit d = None \<and> remaining d = None \<and> resetTime d = None"
proof -
  obtain res this1 w1 where l: "loadRulesForTenant this tenantId w = (res, this1, w1)"
    by (cases "loadRulesForTenant this tenantId w")
  obtain lres w2 where t: "rules_loop (evaluation_order (case res of Inr rules \<Rightarrow> rules | Inl e \<Rightarrow> []))
                             tenantId ipAddress apiUrl w1 = (lres, w2)"
    by (cases "rules_loop (evaluation_order (case res of Inr rules \<Rightarrow> rules | Inl e \<Rightarrow> []))
                 tenantId ipAddress apiUrl w1")
  have "lres = Inr (Some d) \<Longrightarrow> \<not> allowed d"
    using rules_loop_Some_denies t by blast
  with assms l t show ?thesis
    by (cases res; cases lres)
       (auto simp add: checkRateLimit_def checkRateLimit_try_def types_loop_order
         simp del: types_loop.simps split: if_splits option.splits)
qed

theorem checkRateLimit_allowed_no_figures_witness:
  "allowed (fst (checkRateLimit empty_limiter ''T'' ''1.2.3.4'' None (quiet_world 100000 [general_rule 3 30])))
   \<and> result_limit (fst (checkRateLimit empty_limiter ''T'' ''1.2.3.4'' None
                        (quiet_world 100000 [general_rule 3 30]))) = None
   \<and> remaining (fst (checkRateLimit empty_limiter ''T'' ''1.2.3.4'' None
                      (quiet_world 100000 [general_rule 3 30]))) = None
   \<and> resetTime (fst (checkRateLimit empty_limiter ''T'' ''1.2.3.4'' None
                      (quiet_world 100000 [general_rule 3 30]))) = None"
proof -
  let ?run = "checkRateLimit empty_limiter ''T'' ''1.2.3.4'' None (quiet_world 100000 [general_rule 3 30])"
  have a: "allowed (fst ?run)"
    by (simp add: checkRateLimit_def checkRateLimit_try_def loadRulesForTenant_def Date_now_def
      query_def CACHE_TTL_def checkRule_def getCurrentWindow_def incrementCounter_def
      redis_incr_def redis_expire_def identifier_of_def redisKey_of_def exceeded_message_def
      falsy_def empty_limiter_def quiet_world_def general_rule_def
      show_int_examples Let_def)
  have p: "?run = (fst ?run, fst (snd ?run), snd (snd ?run))"
    by (simp only: prod.collapse)
  from checkRateLimit_allowed_no_figures [OF p a] a show ?thesis
    by blast
qed

section \<open>Failing open\<close>

text \<open>A call to a store made between two environments was rejected.\<close>

definition fault_between :: "world \<Rightarrow> world \<Rightarrow> bool" where
  "fault_between w w' = (\<exists>n. io_calls w \<le> n \<and> n < io_calls w' \<and> faults w n)"

text \<open>Environments in which every store call is rejected, and in which every call but the first is.\<close>

definition store_down :: "world \<Rightarrow> world" where
  "store_down w = w\<lparr>faults := (\<lambda>n. True)\<rparr>"

definition counter_store_down :: "world \<Rightarrow> world" where
  "counter_store_down w = w\<lparr>faults := (\<lambda>n. 0 < n)\<rparr>"

lemma fault_between_trans:
  assumes "\<not> fault_between w w1" and "\<not> fault_between w1 w2" and "faults w1 = faults w"
  shows "\<not> fault_between w w2"
proof
  assume "fault_between w w2"
  then obtain n where n: "io_calls w \<le> n" "n < io_calls w2" "faults w n"
    unfolding fault_between_def by blast
  show False
  proof (cases "n < io_calls w1")
    case True
    with n assms(1) show False unfolding fault_between_def by blast
  next
    case False
    with n assms(2,3) show False unfolding fault_between_def by auto
  qed
qed

lemma loadRulesForTenant_no_fault:
  assumes "loadRulesForTenant this tenantId w = (Inr rules, this', w')"
  shows "faults w' = faults w \<and> \<not> fault_between w w'"
  using assms
  by (auto simp add: loadRulesForTenant_def Date_now_def query_def fault_between_def Let_def
      less_Suc_eq split: option.splits if_splits)

lemma checkRule_no_fault_between:
  assumes "checkRule r tenantId ipAddress apiUrl w = (Inr d, w')"
  shows "faults w' = faults w \<and> \<not> fault_between w w'"
  using checkRule_frame [OF assms] checkRule_no_fault [OF assms]
  by (auto simp add: fault_between_def)

lemma rules_loop_no_fault:
  assumes "rules_loop rs tenantId ipAddress apiUrl w = (Inr x, w')"
  shows "faults w' = faults w \<and> \<not> fault_between w w'"
  using assms
proof (induction rs arbitrary: w)
  case Nil
  then show ?case by (simp add: fault_between_def)
next
  case (Cons r rs)
  show ?case
  proof (cases "applicable r apiUrl")
    case False
    with Cons.prems have "rules_loop rs tenantId ipAddress apiUrl w = (Inr x, w')"
      by (simp add: rules_loop_skip del: rules_loop.simps)
    with Cons.IH show ?thesis by blast
  next
    case True
    note step = rules_loop_check [OF True, of rs tenantId ipAddress w]
    obtain res w1 where c: "checkRule r tenantId ipAddress apiUrl w = (res, w1)"
      by (cases "checkRule r tenantId ipAddress apiUrl w")
    with Cons.prems step obtain d where d: "res = Inr d"
      by (cases res) auto
    note nf = checkRule_no_fault_between [OF c [unfolded d]]
    show ?thesis
    proof (cases "allowed d")
      case False
      with Cons.prems step c d have "w' = w1" by simp
      with nf show ?thesis by simp
    next
      case True
      with Cons.prems step c d have "rules_loop rs tenantId ipAddress apiUrl w1 = (Inr x, w')"
        by simp
      with Cons.IH have "faults w' = faults w1 \<and> \<not> fault_between w1 w'" by blast
      with nf fault_between_trans [of w w1 w'] show ?thesis by simp
    qed
  qed
qed

lemma checkRateLimit_try_no_fault:
  assumes "checkRateLimit_try this tenantId ipAddress apiUrl w = (Inr d, this', w')"
  shows "\<not> fault_between w w'"
proof -
  obtain res this1 w1 where l: "loadRulesForTenant this tenantId w = (res, this1, w1)"
    by (cases "loadRulesForTenant this tenantId w")
  with assms obtain rules where r: "res = Inr rules"
    by (cases res) (auto simp add: checkRateLimit_try_def)
  note nf = loadRulesForTenant_no_fault [OF l [unfolded r]]
  show ?thesis
  proof (cases "length rules = 0")
    case True
    with assms l r have "w' = w1" by (simp add: checkRateLimit_try_def)
    with nf show ?thesis by simp
  next
    case False
    obtain lres w2 where t: "rules_loop (evaluation_order rules) tenantId ipAddress apiUrl w1 = (lres, w2)"
      by (cases "rules_loop (evaluation_order rules) tenantId ipAddress apiUrl w1")
    with assms l r False obtain x where x: "lres = Inr x" "w2 = w'"
      by (cases lres)
         (auto simp add: checkRateLimit_try_def types_loop_order simp del: types_loop.simps
           split: option.splits)
    from rules_loop_no_fault [OF t [unfolded x]] nf fault_between_trans [of w w1 w']
    show ?thesis by simp
  qed
qed

text \<open>
  Claim C4, as amended. \<open>checkRateLimit\<close> always returns a decision. Whenever the body of
  its \<^verbatim>\<open>try\<close> block throws, and so whenever a call to the rule store or to the counter
  store made during the evaluation is rejected, the decision is \<open>allowed = True\<close> with the
  message \<^verbatim>\<open>Rate limiter error, allowing request\<close> and no other field.
\<close>

theorem fail_open:
  "(checkRateLimit_try this tenantId ipAddress apiUrl w = (Inl e, this', w') \<longrightarrow>
      checkRateLimit this tenantId ipAddress apiUrl w =
        (\<lparr>allowed = True, result_limit = None, remaining = None, resetTime = None,
          message = Some ''Rate limiter error, allowing request''\<rparr>, this', w'))
   \<and> (checkRateLimit this tenantId ipAddress apiUrl w = (d, this', w')
       \<and> (\<exists>n. io_calls w \<le> n \<and> n < io_calls w' \<and> faults w n) \<longrightarrow>
      d = \<lparr>allowed = True, result_limit = None, remaining = None, resetTime = None,
            message = Some ''Rate limiter error, allowing request''\<rparr>)"
proof (intro conjI impI)
  assume "checkRateLimit_try this tenantId ipAddress apiUrl w = (Inl e, this', w')"
  then show "checkRateLimit this tenantId ipAddress apiUrl w =
        (\<lparr>allowed = True, result_limit = None, remaining = None, resetTime = None,
          message = Some ''Rate limiter error, allowing request''\<rparr>, this', w')"
    by (simp add: checkRateLimit_def)
next
  assume a: "checkRateLimit this tenantId ipAddress apiUrl w = (d, this', w')
       \<and> (\<exists>n. io_calls w \<le> n \<and> n < io_calls w' \<and> faults w n)"
  obtain res this1 w1 where t: "checkRateLimit_try this tenantId ipAddress apiUrl w = (res, this1, w1)"
    by (cases "checkRateLimit_try this tenantId ipAddress apiUrl w")
  show "d = \<lparr>allowed = True, result_limit = None, remaining = None, resetTime = None,
            message = Some ''Rate limiter error, allowing request''\<rparr>"
  proof (cases res)
    case (Inl e)
    with a t show ?thesis by (simp add: checkRateLimit_def)
  next
    case (Inr d')
    with a t have "w1 = w'" by (simp add: checkRateLimit_def)
    with checkRateLimit_try_no_fault [OF t [unfolded Inr]] a show ?thesis
      by (simp add: fault_between_def)
  qed
qed

lemma rule_store_down_run:
  "checkRateLimit empty_limiter ''T'' ''1.2.3.4'' None (store_down (quiet_world 100000 [general_rule 3 30])) =
     (\<lparr>allowed = True, result_limit = None, remaining = None, resetTime = None,
       message = Some ''Rate limiter error, allowing request''\<rparr>,
      empty_limiter,
      (store_down (quiet_world 100000 [general_rule 3 30]))\<lparr>clock_reads := 1, io_calls := 1, db_log := [''T'']\<rparr>)"
  by (simp add: checkRateLimit_def checkRateLimit_try_def loadRulesForTenant_def Date_now_def
      query_def empty_limiter_def quiet_world_def store_down_def Let_def)

lemma counter_store_down_run:
  "checkRateLimit empty_limiter ''T'' ''1.2.3.4'' None (counter_store_down (quiet_world 100000 [general_rule 3 30])) =
     (\<lparr>allowed = True, result_limit = None, remaining = None, resetTime = None,
       message = Some ''Rate limiter error, allowing request''\<rparr>,
      \<lparr>rulesCache = [''T'' \<mapsto> [general_rule 3 30]], cacheExpiry = [''T'' \<mapsto> 160000]\<rparr>,
      (counter_store_down (quiet_world 100000 [general_rule 3 30]))\<lparr>clock_reads := 2, io_calls := 2,
         db_log := [''T''], redis_log := [INCR ''rate_limit:T:GENERAL:general:3'']\<rparr>)"
  by (simp add: checkRateLimit_def checkRateLimit_try_def loadRulesForTenant_def Date_now_def
      query_def CACHE_TTL_def checkRule_def getCurrentWindow_def incrementCounter_def
      redis_incr_def redis_expire_def identifier_of_def redisKey_of_def exceeded_message_def
      falsy_def empty_limiter_def quiet_world_def general_rule_def counter_store_down_def
      show_int_examples Let_def)

lemma rule_store_down_try:
  "checkRateLimit_try empty_limiter ''T'' ''1.2.3.4'' None (store_down (quiet_world 100000 [general_rule 3 30])) =
     (Inl STORE_UNAVAILABLE, empty_limiter,
      (store_down (quiet_world 100000 [general_rule 3 30]))\<lparr>clock_reads := 1, io_calls := 1, db_log := [''T'']\<rparr>)"
  by (simp add: checkRateLimit_try_def loadRulesForTenant_def Date_now_def
      query_def empty_limiter_def quiet_world_def store_down_def Let_def)

theorem fail_open_witness:
  "fst (checkRateLimit_try empty_limiter ''T'' ''1.2.3.4'' None
          (store_down (quiet_world 100000 [general_rule 3 30]))) = Inl STORE_UNAVAILABLE
   \<and> fst (checkRateLimit empty_limiter ''T'' ''1.2.3.4'' None
          (store_down (quiet_world 100000 [general_rule 3 30])))
       = \<lparr>allowed = True, result_limit = None, remaining = None, resetTime = None,
          message = Some ''Rate limiter error, allowing request''\<rparr>
   \<and> faults (counter_store_down (quiet_world 100000 [general_rule 3 30])) 1
   \<and> fst (checkRateLimit empty_limiter ''T'' ''1.2.3.4'' None
          (counter_store_down (quiet_world 100000 [general_rule 3 30])))
       = \<lparr>allowed = True, result_limit = None, remaining = None, resetTime = None,
          message = Some ''Rate limiter error, allowing request''\<rparr>"
proof -
  define w where "w = store_down (quiet_world 100000 [general_rule 3 30])"
  define v where "v = counter_store_down (quiet_world 100000 [general_rule 3 30])"
  define w' where "w' = w\<lparr>clock_reads := 1, io_calls := 1, db_log := [''T'']\<rparr>"
  define this' where "this' = \<lparr>rulesCache = [''T'' \<mapsto> [general_rule 3 30]], cacheExpiry = [''T'' \<mapsto> 160000]\<rparr>"
  define v' where "v' = v\<lparr>clock_reads := 2, io_calls := 2,
         db_log := [''T''], redis_log := [INCR ''rate_limit:T:GENERAL:general:3'']\<rparr>"
  define d where "d = fst (checkRateLimit empty_limiter ''T'' ''1.2.3.4'' None v)"
  have t: "checkRateLimit_try empty_limiter ''T'' ''1.2.3.4'' None w = (Inl STORE_UNAVAILABLE, empty_limiter, w')"
    unfolding w_def w'_def by (rule rule_store_down_try)
  have r: "checkRateLimit empty_limiter ''T'' ''1.2.3.4'' None v = (d, this', v')"
    unfolding d_def v_def v'_def this'_def by (simp only: counter_store_down_run fst_conv)
  have f: "faults v 1"
    unfolding v_def by (simp add: counter_store_down_def)
  have io: "io_calls v \<le> 1" "1 < io_calls v'"
    unfolding v'_def v_def by (simp_all add: counter_store_down_def quiet_world_def)
  from io f have ex: "\<exists>n. io_calls v \<le> n \<and> n < io_calls v' \<and> faults v n"
    by blast
  from fail_open [of empty_limiter "''T''" "''1.2.3.4''" None w STORE_UNAVAILABLE empty_limiter w'] t
  have a: "checkRateLimit empty_limiter ''T'' ''1.2.3.4'' None w =
        (\<lparr>allowed = True, result_limit = None, remaining = None, resetTime = None,
          message = Some ''Rate limiter error, allowing request''\<rparr>, empty_limiter, w')"
    by blast
  from fail_open [of empty_limiter "''T''" "''1.2.3.4''" None v _ this' v' d] r ex
  have b: "d = \<lparr>allowed = True, result_limit = None, remaining = None, resetTime = None,
          message = Some ''Rate limiter error, allowing request''\<rparr>"
    by blast
  have "fst (checkRateLimit_try empty_limiter ''T'' ''1.2.3.4'' None w) = Inl STORE_UNAVAILABLE"
    by (simp only: t fst_conv)
  moreover have "fst (checkRateLimit empty_limiter ''T'' ''1.2.3.4'' None w)
       = \<lparr>allowed = True, result_limit = None, remaining = None, resetTime = None,
          message = Some ''Rate limiter error, allowing request''\<rparr>"
    by (simp only: a fst_conv)
  ultimately show ?thesis
    using b f unfolding d_def w_def v_def by blast
qed

text \<open>
  The message of claim C4 as it is written, with a lower-case first letter, is not the
  one returned when the rule store is down.
\<close>

theorem fail_open_message_counterexample:
  "fst (checkRateLimit_try empty_limiter ''T'' ''1.2.3.4'' None
          (store_down (quiet_world 100000 [general_rule 3 30]))) = Inl STORE_UNAVAILABLE
   \<and> message (fst (checkRateLimit empty_limiter ''T'' ''1.2.3.4'' None
          (store_down (quiet_world 100000 [general_rule 3 30]))))
       \<noteq> Some ''rate limiter error, allowing request''"
  by (simp add: rule_store_down_try rule_store_down_run)

section \<open>The keys of the counters\<close>

text \<open>
  The scope identifier of the specification: the sentinel \<^verbatim>\<open>general\<close> for a tenant-wide
  rule, the source address for a per-source rule, the target identifier itself for an
  endpoint rule.
\<close>

definition scope_identifier :: "RateLimitRule \<Rightarrow> string \<Rightarrow> string option \<Rightarrow> string" where
  "scope_identifier rule sourceAddress targetIdentifier =
     (case rule_type rule of
        GENERAL \<Rightarrow> ''general''
      | IP \<Rightarrow> sourceAddress
      | API \<Rightarrow> the targetIdentifier)"

text \<open>The key format \<^verbatim>\<open>rate_limit:{tenantId}:{ruleKind}:{scopeIdentifier}:{windowIndex}\<close>.\<close>

definition counter_key :: "string \<Rightarrow> RuleType \<Rightarrow> string \<Rightarrow> int \<Rightarrow> string" where
  "counter_key tenantId ruleKind scopeIdentifier windowIndex =
     ''rate_limit:'' @ tenantId @ '':'' @ show_RuleType ruleKind @ '':'' @ scopeIdentifier
       @ '':'' @ show_int windowIndex"

text \<open>The keys of the INCR commands of a list of commands.\<close>

definition incr_keys :: "redis_cmd list \<Rightarrow> string list" where
  "incr_keys cmds = concat (map (\<lambda>c. case c of INCR k \<Rightarrow> [k] | EXPIRE k t \<Rightarrow> []) cmds)"

text \<open>
  The keys in that format for the applicable rules of a list and the window indices of the
  clock readings from the \<open>lo\<close>-th up to, but not including, the \<open>hi\<close>-th.
\<close>

definition evaluator_keys ::
  "string \<Rightarrow> string \<Rightarrow> string option \<Rightarrow> RateLimitRule list \<Rightarrow> world \<Rightarrow> nat \<Rightarrow> nat \<Rightarrow> string set" where
  "evaluator_keys tenantId sourceAddress targetIdentifier rules w lo hi =
     {counter_key tenantId (rule_type r) (scope_identifier r sourceAddress targetIdentifier)
        (window_at w n (window_seconds r))
      | r n. r \<in> set rules \<and> applicable r targetIdentifier \<and> lo \<le> n \<and> n < hi}"

text \<open>An environment in which source \<^verbatim>\<open>1.1.1.1\<close> has used up a per-source limit of 1.\<close>

definition source_a_used_up :: world where
  "source_a_used_up = (quiet_world 100000 [])\<lparr>redis_kv := [''rate_limit:T:IP:1.1.1.1:1'' \<mapsto> 1]\<rparr>"

lemma applicable_key:
  assumes "applicable r apiUrl"
  shows "redisKey_of tenantId r (identifier_of r ipAddress apiUrl) window
           = counter_key tenantId (rule_type r) (scope_identifier r ipAddress apiUrl) window"
  using assms
  by (cases "rule_type r"; cases apiUrl)
     (auto simp add: applicable_def falsy_def redisKey_of_def identifier_of_def counter_key_def
        scope_identifier_def split: if_splits)

lemma evaluator_keys_mono:
  assumes "set rs \<subseteq> set rs'" and "lo' \<le> lo" and "hi \<le> hi'"
  shows "evaluator_keys t ip u rs w lo hi \<subseteq> evaluator_keys t ip u rs' w lo' hi'"
proof
  fix k
  assume "k \<in> evaluator_keys t ip u rs w lo hi"
  then obtain r n where "r \<in> set rs" "applicable r u" "lo \<le> n" "n < hi"
    "k = counter_key t (rule_type r) (scope_identifier r ip u) (window_at w n (window_seconds r))"
    unfolding evaluator_keys_def by blast
  with assms have "r \<in> set rs' \<and> applicable r u \<and> lo' \<le> n \<and> n < hi'
    \<and> k = counter_key t (rule_type r) (scope_identifier r ip u) (window_at w n (window_seconds r))"
    by auto
  then show "k \<in> evaluator_keys t ip u rs' w lo' hi'"
    unfolding evaluator_keys_def by blast
qed

lemma evaluator_keys_clock:
  assumes "clock w1 = clock w"
  shows "evaluator_keys t ip u rs w1 lo hi = evaluator_keys t ip u rs w lo hi"
  using assms by (simp add: evaluator_keys_def window_at_def)

lemma checkRule_keys:
  assumes "checkRule r tenantId ipAddress apiUrl w = (res, w')" and "applicable r apiUrl"
  shows "\<exists>cmds. redis_log w' = redis_log w @ cmds
           \<and> incr_keys cmds = [counter_key tenantId (rule_type r) (scope_identifier r ipAddress apiUrl)
                                 (window_at w (clock_reads w) (window_seconds r))]"
proof -
  let ?key = "redisKey_of tenantId r (identifier_of r ipAddress apiUrl)
                 (window_at w (clock_reads w) (window_seconds r))"
  from checkRule_log [OF assms(1) refl]
  consider "redis_log w' = redis_log w @ [INCR ?key]"
    | "redis_log w' = redis_log w @ [INCR ?key, EXPIRE ?key (window_seconds r)]"
    by blast
  then show ?thesis
  proof cases
    case 1
    then have "redis_log w' = redis_log w @ [INCR ?key] \<and> incr_keys [INCR ?key]
        = [counter_key tenantId (rule_type r) (scope_identifier r ipAddress apiUrl)
                                 (window_at w (clock_reads w) (window_seconds r))]"
      by (simp add: incr_keys_def applicable_key [OF assms(2)])
    then show ?thesis by blast
  next
    case 2
    then have "redis_log w' = redis_log w @ [INCR ?key, EXPIRE ?key (window_seconds r)]
        \<and> incr_keys [INCR ?key, EXPIRE ?key (window_seconds r)]
        = [counter_key tenantId (rule_type r) (scope_identifier r ipAddress apiUrl)
                                 (window_at w (clock_reads w) (window_seconds r))]"
      by (simp add: incr_keys_def applicable_key [OF assms(2)])
    then show ?thesis by blast
  qed
qed

lemma incr_keys_append: "incr_keys (xs @ ys) = incr_keys xs @ incr_keys ys"
  by (simp add: incr_keys_def)

lemma rules_loop_keys:
  assumes "rules_loop rs tenantId ipAddress apiUrl w = (res, w')"
  shows "clock w' = clock w \<and> clock_reads w \<le> clock_reads w'
         \<and> (\<exists>cmds. redis_log w' = redis_log w @ cmds
               \<and> set (incr_keys cmds)
                   \<subseteq> evaluator_keys tenantId ipAddress apiUrl rs w (clock_reads w) (clock_reads w'))"
  using assms
proof (induction rs arbitrary: w)
  case Nil
  then have "w' = w" by simp
  then have "redis_log w' = redis_log w @ [] \<and> set (incr_keys [])
      \<subseteq> evaluator_keys tenantId ipAddress apiUrl [] w (clock_reads w) (clock_reads w')"
    by (simp add: incr_keys_def)
  with \<open>w' = w\<close> show ?case by blast
next
  case (Cons r rs)
  show ?case
  proof (cases "applicable r apiUrl")
    case False
    with Cons.prems have "rules_loop rs tenantId ipAddress apiUrl w = (res, w')"
      by (simp add: rules_loop_skip del: rules_loop.simps)
    with Cons.IH obtain cmds where c: "clock w' = clock w" "clock_reads w \<le> clock_reads w'"
      "redis_log w' = redis_log w @ cmds"
      "set (incr_keys cmds) \<subseteq> evaluator_keys tenantId ipAddress apiUrl rs w (clock_reads w) (clock_reads w')"
      by blast
    have "evaluator_keys tenantId ipAddress apiUrl rs w (clock_reads w) (clock_reads w')
       \<subseteq> evaluator_keys tenantId ipAddress apiUrl (r # rs) w (clock_reads w) (clock_reads w')"
      by (rule evaluator_keys_mono) auto
    with c show ?thesis by blast
  next
    case True
    note step = rules_loop_check [OF True, of rs tenantId ipAddress w]
    obtain res1 w1 where c: "checkRule r tenantId ipAddress apiUrl w = (res1, w1)"
      by (cases "checkRule r tenantId ipAddress apiUrl w")
    note fr = checkRule_frame [OF c]
    from checkRule_keys [OF c True] obtain cmds1 where k1: "redis_log w1 = redis_log w @ cmds1"
      "incr_keys cmds1 = [counter_key tenantId (rule_type r) (scope_identifier r ipAddress apiUrl)
                                 (window_at w (clock_reads w) (window_seconds r))]"
      by blast
    have in1: "counter_key tenantId (rule_type r) (scope_identifier r ipAddress apiUrl)
                 (window_at w (clock_reads w) (window_seconds r))
         \<in> evaluator_keys tenantId ipAddress apiUrl (r # rs) w (clock_reads w) (clock_reads w'')"
      if "clock_reads w1 \<le> clock_reads w''" for w''
    proof -
      from that fr True have "r \<in> set (r # rs) \<and> applicable r apiUrl \<and> clock_reads w \<le> clock_reads w
          \<and> clock_reads w < clock_reads w''"
        by simp
      then show ?thesis
        unfolding evaluator_keys_def by blast
    qed
    consider (stop) "w' = w1"
      | (go) "rules_loop rs tenantId ipAddress apiUrl w1 = (res, w')"
      using Cons.prems step c
      by (cases res1) (auto split: if_splits)
    then show ?thesis
    proof cases
      case stop
      with k1 in1 [of w1] have "redis_log w' = redis_log w @ cmds1 \<and> set (incr_keys cmds1)
         \<subseteq> evaluator_keys tenantId ipAddress apiUrl (r # rs) w (clock_reads w) (clock_reads w')"
        by simp
      then have "\<exists>cmds. redis_log w' = redis_log w @ cmds
               \<and> set (incr_keys cmds)
                   \<subseteq> evaluator_keys tenantId ipAddress apiUrl (r # rs) w (clock_reads w) (clock_reads w')"
        by blast
      moreover have "clock w' = clock w" "clock_reads w \<le> clock_reads w'"
        using stop fr by simp_all
      ultimately show ?thesis by simp
    next
      case go
      with Cons.IH obtain cmds where g: "clock w' = clock w1" "clock_reads w1 \<le> clock_reads w'"
        "redis_log w' = redis_log w1 @ cmds"
        "set (incr_keys cmds) \<subseteq> evaluator_keys tenantId ipAddress apiUrl rs w1 (clock_reads w1) (clock_reads w')"
        by blast
      have "evaluator_keys tenantId ipAddress apiUrl rs w1 (clock_reads w1) (clock_reads w')
          = evaluator_keys tenantId ipAddress apiUrl rs w (clock_reads w1) (clock_reads w')"
        using fr by (intro evaluator_keys_clock) simp
      also have "\<dots> \<subseteq> evaluator_keys tenantId ipAddress apiUrl (r # rs) w (clock_reads w) (clock_reads w')"
        using fr by (intro evaluator_keys_mono) auto
      finally have sub: "set (incr_keys cmds)
          \<subseteq> evaluator_keys tenantId ipAddress apiUrl (r # rs) w (clock_reads w) (clock_reads w')"
        using g(4) by blast
      have l: "redis_log w' = redis_log w @ (cmds1 @ cmds)"
        using g(3) k1(1) by simp
      have k: "set (incr_keys (cmds1 @ cmds))
          \<subseteq> evaluator_keys tenantId ipAddress apiUrl (r # rs) w (clock_reads w) (clock_reads w')"
        using sub k1(2) in1 [OF g(2)] by (simp add: incr_keys_append)
      have c1: "clock w' = clock w"
        using g(1) fr by simp
      have c2: "clock_reads w \<le> clock_reads w'"
        using g(2) fr by simp
      from l k have "\<exists>cmds. redis_log w' = redis_log w @ cmds
               \<and> set (incr_keys cmds)
                   \<subseteq> evaluator_keys tenantId ipAddress apiUrl (r # rs) w (clock_reads w) (clock_reads w')"
        by blast
      with c1 c2 show ?thesis by simp
    qed
  qed
qed

lemma INCR_incr_keys: "INCR k \<in> set cmds \<longleftrightarrow> k \<in> set (incr_keys cmds)"
  by (induction cmds) (auto simp add: incr_keys_def split: redis_cmd.splits)

lemma loadRulesForTenant_frame:
  assumes "loadRulesForTenant this tenantId w = (res, this', w')"
  shows "clock w' = clock w \<and> clock_reads w' = Suc (clock_reads w) \<and> redis_log w' = redis_log w"
  using assms
  by (auto simp add: loadRulesForTenant_def Date_now_def query_def Let_def
      split: option.splits if_splits)

lemma checkRateLimit_keys:
  assumes "checkRateLimit this tenantId ipAddress apiUrl w = (d, this', w')"
  shows "\<exists>cmds. redis_log w' = redis_log w @ cmds
           \<and> set (incr_keys cmds)
               \<subseteq> evaluator_keys tenantId ipAddress apiUrl
                   (case fst (loadRulesForTenant this tenantId w) of Inr rules \<Rightarrow> rules | Inl e \<Rightarrow> [])
                   w (clock_reads w) (clock_reads w')"
proof -
  obtain res this1 w1 where l: "loadRulesForTenant this tenantId w = (res, this1, w1)"
    by (cases "loadRulesForTenant this tenantId w")
  note fr = loadRulesForTenant_frame [OF l]
  have trivial: ?thesis if "redis_log w' = redis_log w"
  proof -
    from that have "redis_log w' = redis_log w @ [] \<and> set (incr_keys [])
        \<subseteq> evaluator_keys tenantId ipAddress apiUrl
                   (case fst (loadRulesForTenant this tenantId w) of Inr rules \<Rightarrow> rules | Inl e \<Rightarrow> [])
                   w (clock_reads w) (clock_reads w')"
      by (simp add: incr_keys_def)
    then show ?thesis by blast
  qed
  show ?thesis
  proof (cases res)
    case (Inl e)
    with assms l have "w' = w1"
      by (simp add: checkRateLimit_def checkRateLimit_try_def)
    with fr trivial show ?thesis by simp
  next
    case (Inr rules)
    show ?thesis
    proof (cases "length rules = 0")
      case True
      with assms l Inr have "w' = w1"
        by (simp add: checkRateLimit_def checkRateLimit_try_def)
      with fr trivial show ?thesis by simp
    next
      case False
      obtain lres w2 where t: "rules_loop (evaluation_order rules) tenantId ipAddress apiUrl w1 = (lres, w2)"
        by (cases "rules_loop (evaluation_order rules) tenantId ipAddress apiUrl w1")
      with assms l Inr False have w2: "w2 = w'"
        by (cases lres)
           (auto simp add: checkRateLimit_def checkRateLimit_try_def types_loop_order
             simp del: types_loop.simps split: option.splits)
      from rules_loop_keys [OF t] w2 obtain cmds where c: "clock_reads w1 \<le> clock_reads w'"
        "redis_log w' = redis_log w1 @ cmds"
        "set (incr_keys cmds) \<subseteq> evaluator_keys tenantId ipAddress apiUrl (evaluation_order rules) w1
                                   (clock_reads w1) (clock_reads w')"
        by blast
      have "evaluator_keys tenantId ipAddress apiUrl (evaluation_order rules) w1 (clock_reads w1) (clock_reads w')
          = evaluator_keys tenantId ipAddress apiUrl (evaluation_order rules) w (clock_reads w1) (clock_reads w')"
        using fr by (intro evaluator_keys_clock) simp
      also have "\<dots> \<subseteq> evaluator_keys tenantId ipAddress apiUrl rules w (clock_reads w) (clock_reads w')"
        using fr by (intro evaluator_keys_mono) (auto simp add: evaluation_order_def)
      finally have sub: "set (incr_keys cmds)
          \<subseteq> evaluator_keys tenantId ipAddress apiUrl rules w (clock_reads w) (clock_reads w')"
        using c(3) by blast
      have lg: "redis_log w' = redis_log w @ cmds"
        using c(2) fr by simp
      have rs: "(case fst (loadRulesForTenant this tenantId w) of Inr rules \<Rightarrow> rules | Inl e \<Rightarrow> []) = rules"
        using l Inr by simp
      from lg sub show ?thesis
        unfolding rs by blast
    qed
  qed
qed

lemma of_char_digit_char: "d < 10 \<Longrightarrow> (of_char (digit_char d) :: nat) = 48 + d"
  by (simp add: digit_char_def)

lemma digit_char_not_colon: "d < 10 \<Longrightarrow> digit_char d \<noteq> CHR '':''"
proof
  assume "d < 10" and "digit_char d = CHR '':''"
  then have "(of_char (digit_char d) :: nat) = of_char (CHR '':'')" by simp
  with \<open>d < 10\<close> show False by (simp add: of_char_digit_char)
qed

lemma show_nat_no_colon: "CHR '':'' \<notin> set (show_nat n)"
proof (induction n rule: show_nat.induct)
  case (1 n)
  show ?case
  proof (cases "n < 10")
    case True
    then show ?thesis
      using digit_char_not_colon [of n] by (subst show_nat.simps) auto
  next
    case False
    have "n mod 10 < 10" by simp
    with False "1.IH" show ?thesis
      using digit_char_not_colon [of "n mod 10"] by (subst show_nat.simps) auto
  qed
qed

lemma show_int_no_colon: "CHR '':'' \<notin> set (show_int i)"
  by (simp add: show_int_def show_nat_no_colon)

lemma last_separator_cancel:
  assumes "xs @ c # ys = xs' @ c # ys'" and "c \<notin> set ys" and "c \<notin> set ys'"
  shows "xs = xs'"
proof -
  from assms(1) have "rev ys @ c # rev xs = rev ys' @ c # rev xs'"
    by (metis rev_append rev.simps(2) append_assoc append_Cons append_Nil)
  then have "dropWhile (\<lambda>x. x \<noteq> c) (rev ys @ c # rev xs) = dropWhile (\<lambda>x. x \<noteq> c) (rev ys' @ c # rev xs')"
    by simp
  moreover have "dropWhile (\<lambda>x. x \<noteq> c) (rev zs @ c # rev ws) = c # rev ws" if "c \<notin> set zs" for zs ws
  proof -
    have "dropWhile (\<lambda>x. x \<noteq> c) (rev zs @ c # rev ws) = dropWhile (\<lambda>x. x \<noteq> c) (c # rev ws)"
    proof (rule dropWhile_append2)
      fix x
      assume "x \<in> set (rev zs)"
      with that show "x \<noteq> c" by auto
    qed
    then show ?thesis by simp
  qed
  ultimately have "c # rev xs = c # rev xs'"
    using assms(2,3) by simp
  then show ?thesis by simp
qed

lemma counter_key_source_inj:
  assumes "counter_key tenantId kind ipA a = counter_key tenantId kind ipB b"
  shows "ipA = ipB"
proof -
  from assms have "ipA @ CHR '':'' # show_int a = ipB @ CHR '':'' # show_int b"
    by (simp add: counter_key_def)
  then show ?thesis
    by (rule last_separator_cancel) (rule show_int_no_colon)+
qed

text \<open>
  Claim C8. Every INCR command a call of \<open>checkRateLimit\<close> sends has a key of the form
  \<^verbatim>\<open>rate_limit:{tenantId}:{ruleKind}:{scopeIdentifier}:{windowIndex}\<close> for an applicable rule
  of the tenant's list, with the scope identifier of that rule (\<^verbatim>\<open>general\<close>, the source
  address, or the target identifier itself) and the window index of a clock reading made
  during the call. Keys of a per-source rule for two distinct source addresses differ,
  whatever the windows, and checking such a rule for one source leaves the counter of
  every other source as it was.
\<close>

theorem counter_keys:
  "(checkRateLimit this tenantId ipAddress apiUrl w = (d, this', w') \<longrightarrow>
      (\<exists>cmds. redis_log w' = redis_log w @ cmds
         \<and> (\<forall>k. INCR k \<in> set cmds \<longrightarrow>
              (\<exists>rules r n. fst (loadRulesForTenant this tenantId w) = Inr rules \<and> r \<in> set rules
                 \<and> applicable r apiUrl \<and> clock_reads w \<le> n \<and> n < clock_reads w'
                 \<and> k = ''rate_limit:'' @ tenantId @ '':'' @ show_RuleType (rule_type r) @ '':''
                        @ scope_identifier r ipAddress apiUrl @ '':''
                        @ show_int (window_at w n (window_seconds r))))))
   \<and> (ipA \<noteq> ipB \<longrightarrow> counter_key tenantId IP ipA a \<noteq> counter_key tenantId IP ipB b)
   \<and> (rule_type r' = IP \<and> ipA \<noteq> ipB \<longrightarrow>
        redis_kv (snd (checkRule r' tenantId ipA apiUrl w)) (counter_key tenantId IP ipB b)
          = redis_kv w (counter_key tenantId IP ipB b))"
proof (intro conjI impI)
  assume run: "checkRateLimit this tenantId ipAddress apiUrl w = (d, this', w')"
  let ?rules = "case fst (loadRulesForTenant this tenantId w) of Inr rules \<Rightarrow> rules | Inl e \<Rightarrow> []"
  from checkRateLimit_keys [OF run] obtain cmds where c: "redis_log w' = redis_log w @ cmds"
    "set (incr_keys cmds) \<subseteq> evaluator_keys tenantId ipAddress apiUrl ?rules w (clock_reads w) (clock_reads w')"
    by blast
  have "\<exists>rules r n. fst (loadRulesForTenant this tenantId w) = Inr rules \<and> r \<in> set rules
                 \<and> applicable r apiUrl \<and> clock_reads w \<le> n \<and> n < clock_reads w'
                 \<and> k = ''rate_limit:'' @ tenantId @ '':'' @ show_RuleType (rule_type r) @ '':''
                        @ scope_identifier r ipAddress apiUrl @ '':''
                        @ show_int (window_at w n (window_seconds r))"
    if "INCR k \<in> set cmds" for k
  proof -
    from that c(2) have "k \<in> evaluator_keys tenantId ipAddress apiUrl ?rules w (clock_reads w) (clock_reads w')"
      by (auto simp add: INCR_incr_keys)
    then obtain r n where r: "r \<in> set ?rules" "applicable r apiUrl" "clock_reads w \<le> n" "n < clock_reads w'"
      "k = counter_key tenantId (rule_type r) (scope_identifier r ipAddress apiUrl)
             (window_at w n (window_seconds r))"
      unfolding evaluator_keys_def by blast
    from r(1) obtain rules where rules: "fst (loadRulesForTenant this tenantId w) = Inr rules"
      by (cases "fst (loadRulesForTenant this tenantId w)") auto
    with r(1) have "r \<in> set rules" by simp
    with rules r show ?thesis
      unfolding counter_key_def by blast
  qed
  with c(1) show "\<exists>cmds. redis_log w' = redis_log w @ cmds
         \<and> (\<forall>k. INCR k \<in> set cmds \<longrightarrow>
              (\<exists>rules r n. fst (loadRulesForTenant this tenantId w) = Inr rules \<and> r \<in> set rules
                 \<and> applicable r apiUrl \<and> clock_reads w \<le> n \<and> n < clock_reads w'
                 \<and> k = ''rate_limit:'' @ tenantId @ '':'' @ show_RuleType (rule_type r) @ '':''
                        @ scope_identifier r ipAddress apiUrl @ '':''
                        @ show_int (window_at w n (window_seconds r))))"
    by blast
next
  assume "ipA \<noteq> ipB"
  then show "counter_key tenantId IP ipA a \<noteq> counter_key tenantId IP ipB b"
    using counter_key_source_inj by blast
next
  assume a: "rule_type r' = IP \<and> ipA \<noteq> ipB"
  then have "counter_key tenantId IP ipB b
      \<noteq> counter_key tenantId IP ipA (window_at w (clock_reads w) (window_seconds r'))"
    using counter_key_source_inj by blast
  moreover from a have "redisKey_of tenantId r' (identifier_of r' ipA apiUrl)
                 (window_at w (clock_reads w) (window_seconds r'))
      = counter_key tenantId IP ipA (window_at w (clock_reads w) (window_seconds r'))"
    by (simp add: redisKey_of_def identifier_of_def counter_key_def)
  ultimately show "redis_kv (snd (checkRule r' tenantId ipA apiUrl w)) (counter_key tenantId IP ipB b)
          = redis_kv w (counter_key tenantId IP ipB b)"
    by (intro checkRule_kv_frame) simp
qed

theorem counter_keys_witness:
  "(\<exists>cmds. redis_log (snd (snd (checkRateLimit empty_limiter ''T'' ''1.2.3.4'' None exhausted_world)))
             = redis_log exhausted_world @ cmds
         \<and> (\<forall>k. INCR k \<in> set cmds \<longrightarrow>
              (\<exists>rules r n. fst (loadRulesForTenant empty_limiter ''T'' exhausted_world) = Inr rules
                 \<and> r \<in> set rules \<and> applicable r None
                 \<and> k = ''rate_limit:'' @ ''T'' @ '':'' @ show_RuleType (rule_type r) @ '':''
                        @ scope_identifier r ''1.2.3.4'' None @ '':''
                        @ show_int (window_at exhausted_world n (window_seconds r)))))
   \<and> redis_log (snd (snd (checkRateLimit empty_limiter ''T'' ''1.2.3.4'' None exhausted_world)))
       = [INCR ''rate_limit:T:GENERAL:general:1'']
   \<and> counter_key ''T'' IP ''1.1.1.1'' 1 = ''rate_limit:T:IP:1.1.1.1:1''
   \<and> counter_key ''T'' IP ''2.2.2.2'' 1 = ''rate_limit:T:IP:2.2.2.2:1''
   \<and> counter_key ''T'' IP ''1.1.1.1'' 1 \<noteq> counter_key ''T'' IP ''2.2.2.2'' 1
   \<and> allowed (case fst (checkRule (ip_rule 1 60) ''T'' ''1.1.1.1'' None source_a_used_up) of
                Inr d \<Rightarrow> d) = False
   \<and> redis_kv (snd (checkRule (ip_rule 1 60) ''T'' ''1.1.1.1'' None source_a_used_up))
        (counter_key ''T'' IP ''2.2.2.2'' 1) = None"
proof -
  let ?run = "checkRateLimit empty_limiter ''T'' ''1.2.3.4'' None exhausted_world"
  note th = counter_keys [of empty_limiter "''T''" "''1.2.3.4''" None exhausted_world
      "fst ?run" "fst (snd ?run)" "snd (snd ?run)" "''1.1.1.1''" "''2.2.2.2''" 1 1 "ip_rule 1 60"]
  have ne: "''1.1.1.1'' \<noteq> ''2.2.2.2''" by simp
  have ip: "rule_type (ip_rule 1 60) = IP" by (simp add: ip_rule_def)
  from th have a: "\<exists>cmds. redis_log (snd (snd ?run)) = redis_log exhausted_world @ cmds
         \<and> (\<forall>k. INCR k \<in> set cmds \<longrightarrow>
              (\<exists>rules r n. fst (loadRulesForTenant empty_limiter ''T'' exhausted_world) = Inr rules
                 \<and> r \<in> set rules \<and> applicable r None
                 \<and> k = ''rate_limit:'' @ ''T'' @ '':'' @ show_RuleType (rule_type r) @ '':''
                        @ scope_identifier r ''1.2.3.4'' None @ '':''
                        @ show_int (window_at exhausted_world n (window_seconds r))))"
    by (simp only: prod.collapse simp_thms) blast
  from th ne have b: "counter_key ''T'' IP ''1.1.1.1'' 1 \<noteq> counter_key ''T'' IP ''2.2.2.2'' 1"
    by blast
  have k1: "counter_key ''T'' IP ''1.1.1.1'' 1 = ''rate_limit:T:IP:1.1.1.1:1''"
    and k2: "counter_key ''T'' IP ''2.2.2.2'' 1 = ''rate_limit:T:IP:2.2.2.2:1''"
    by (simp_all add: counter_key_def show_int_examples)
  note th2 = counter_keys [of empty_limiter "''T''" "''1.2.3.4''" None source_a_used_up
      _ _ _ "''1.1.1.1''" "''2.2.2.2''" 1 1 "ip_rule 1 60"]
  from th2 ne ip have "redis_kv (snd (checkRule (ip_rule 1 60) ''T'' ''1.1.1.1'' None source_a_used_up))
        (counter_key ''T'' IP ''2.2.2.2'' 1) = redis_kv source_a_used_up (counter_key ''T'' IP ''2.2.2.2'' 1)"
    by blast
  then have c: "redis_kv (snd (checkRule (ip_rule 1 60) ''T'' ''1.1.1.1'' None source_a_used_up))
        (counter_key ''T'' IP ''2.2.2.2'' 1) = None"
    by (simp add: k2 source_a_used_up_def quiet_world_def)
  have d: "allowed (case fst (checkRule (ip_rule 1 60) ''T'' ''1.1.1.1'' None source_a_used_up) of
                Inr d \<Rightarrow> d) = False"
    by (simp add: checkRule_def getCurrentWindow_def Date_now_def incrementCounter_def
        redis_incr_def redis_expire_def identifier_of_def redisKey_of_def exceeded_message_def
        source_a_used_up_def quiet_world_def ip_rule_def show_int_examples Let_def)
  have e: "redis_log (snd (snd ?run)) = [INCR ''rate_limit:T:GENERAL:general:1'']"
    by (simp add: exhausted_run)
  from a e k1 k2 b d c show ?thesis by blast
qed

section \<open>Endpoint rules without a pattern\<close>

text \<open>
  \<open>with_pattern r p\<close> replaces the rule \<open>r\<close> by the same rule with the pattern \<open>p\<close> and
  leaves every other rule as it is; \<open>replace_cached\<close> and \<open>replace_rows\<close> apply such a
  replacement to every list of the limiter's cache and to every list of rows of the rule
  store.
\<close>

definition with_pattern :: "RateLimitRule \<Rightarrow> string \<Rightarrow> RateLimitRule \<Rightarrow> RateLimitRule" where
  "with_pattern r p x = (if x = r then r\<lparr>api_pattern := Some p\<rparr> else x)"

definition replace_cached :: "(RateLimitRule \<Rightarrow> RateLimitRule) \<Rightarrow> RateLimiter \<Rightarrow> RateLimiter" where
  "replace_cached f this = this\<lparr>rulesCache := (\<lambda>t. map_option (map f) (rulesCache this t))\<rparr>"

definition replace_rows :: "(RateLimitRule \<Rightarrow> RateLimitRule) \<Rightarrow> world \<Rightarrow> world" where
  "replace_rows f w = w\<lparr>db_rows := (\<lambda>t. map f (db_rows w t))\<rparr>"

text \<open>
  A tenant with one endpoint rule without a pattern (limit 2) whose counter for the target
  \<^verbatim>\<open>/x\<close> stands at 2; the stages of a call with that target, and the denial.
\<close>

definition null_pattern_world :: world where
  "null_pattern_world =
     (quiet_world 100000 [api_rule 2 60 None])\<lparr>redis_kv := [''rate_limit:T:API:/x:1'' \<mapsto> 2]\<rparr>"

definition null_cache :: RateLimiter where
  "null_cache = \<lparr>rulesCache = [''T'' \<mapsto> [api_rule 2 60 None]], cacheExpiry = [''T'' \<mapsto> 160000]\<rparr>"

definition null_loaded :: world where
  "null_loaded = null_pattern_world\<lparr>clock_reads := 1, io_calls := 1, db_log := [''T'']\<rparr>"

definition null_denied :: world where
  "null_denied =
     null_pattern_world\<lparr>clock_reads := 2, io_calls := 2, db_log := [''T''],
       redis_kv := [''rate_limit:T:API:/x:1'' \<mapsto> 3],
       redis_log := [INCR ''rate_limit:T:API:/x:1'']\<rparr>"

definition api_denial :: RateLimitResult where
  "api_denial =
     \<lparr>allowed = False, result_limit = Some 2, remaining = Some 0, resetTime = Some 120,
      message = Some ''Rate limit exceeded for API rule. Limit: 2 requests per 60s''\<rparr>"

lemma checkRule_rows:
  "checkRule r tenantId ipAddress apiUrl (w\<lparr>db_rows := g\<rparr>) =
     (case checkRule r tenantId ipAddress apiUrl w of (res, w') \<Rightarrow> (res, w'\<lparr>db_rows := g\<rparr>))"
  by (simp add: checkRule_def getCurrentWindow_def Date_now_def incrementCounter_def
      redis_incr_def redis_expire_def Let_def)

lemma rules_loop_rows:
  "rules_loop rs tenantId ipAddress apiUrl (w\<lparr>db_rows := g\<rparr>) =
     (case rules_loop rs tenantId ipAddress apiUrl w of (res, w') \<Rightarrow> (res, w'\<lparr>db_rows := g\<rparr>))"
proof (induction rs arbitrary: w)
  case Nil
  show ?case by simp
next
  case (Cons r rs)
  show ?case
  proof (cases "applicable r apiUrl")
    case False
    then show ?thesis
      using Cons.IH [of w] by (simp add: rules_loop_skip del: rules_loop.simps)
  next
    case True
    obtain res w1 where c: "checkRule r tenantId ipAddress apiUrl w = (res, w1)"
      by (cases "checkRule r tenantId ipAddress apiUrl w")
    then have c': "checkRule r tenantId ipAddress apiUrl (w\<lparr>db_rows := g\<rparr>) = (res, w1\<lparr>db_rows := g\<rparr>)"
      by (simp add: checkRule_rows)
    show ?thesis
    proof (cases res)
      case (Inl e)
      with True c c' show ?thesis
        by (simp add: rules_loop_check del: rules_loop.simps)
    next
      case (Inr d)
      with True c c' Cons.IH [of w1] show ?thesis
        by (simp add: rules_loop_check del: rules_loop.simps)
    qed
  qed
qed

lemma rules_loop_db_rows:
  assumes "rules_loop rs tenantId ipAddress apiUrl w = (res, w')"
  shows "db_rows w' = db_rows w"
proof -
  have "rules_loop rs tenantId ipAddress apiUrl (w\<lparr>db_rows := db_rows w\<rparr>) = (res, w'\<lparr>db_rows := db_rows w\<rparr>)"
    using assms by (simp only: rules_loop_rows prod.case)
  with assms have "w' = w'\<lparr>db_rows := db_rows w\<rparr>"
    by simp
  then have "db_rows w' = db_rows (w'\<lparr>db_rows := db_rows w\<rparr>)"
    by simp
  then show ?thesis by simp
qed

lemma rules_loop_map:
  assumes "\<forall>x\<in>set rs. applicable (f x) apiUrl = applicable x apiUrl
             \<and> (\<forall>v. checkRule (f x) tenantId ipAddress apiUrl v = checkRule x tenantId ipAddress apiUrl v)"
  shows "rules_loop (map f rs) tenantId ipAddress apiUrl w = rules_loop rs tenantId ipAddress apiUrl w"
  using assms
proof (induction rs arbitrary: w)
  case Nil
  show ?case by simp
next
  case (Cons r rs)
  then have same: "applicable (f r) apiUrl = applicable r apiUrl"
    "\<And>v. checkRule (f r) tenantId ipAddress apiUrl v = checkRule r tenantId ipAddress apiUrl v"
    and ih: "\<And>v. rules_loop (map f rs) tenantId ipAddress apiUrl v = rules_loop rs tenantId ipAddress apiUrl v"
    by simp_all
  show ?case
  proof (cases "applicable r apiUrl")
    case False
    with same ih show ?thesis
      by (simp add: rules_loop_skip del: rules_loop.simps)
  next
    case True
    with same ih show ?thesis
      by (simp add: rules_loop_check del: rules_loop.simps split: prod.split sum.split)
  qed
qed

lemma evaluation_order_map:
  assumes "\<And>x. rule_type (f x) = rule_type x"
  shows "evaluation_order (map f rs) = map f (evaluation_order rs)"
  by (simp add: evaluation_order_def filter_map comp_def assms)

lemma replace_cached_update:
  "replace_cached f (this\<lparr>rulesCache := (rulesCache this)(t \<mapsto> rules), cacheExpiry := e\<rparr>)
     = (replace_cached f this)\<lparr>rulesCache := (rulesCache (replace_cached f this))(t \<mapsto> map f rules),
                                 cacheExpiry := e\<rparr>"
  by (simp add: replace_cached_def fun_eq_iff)

lemma loadRulesForTenant_replace:
  "loadRulesForTenant (replace_cached f this) tenantId (replace_rows f w) =
     (case loadRulesForTenant this tenantId w of
        (res, this', w') \<Rightarrow> (map_sum id (map f) res, replace_cached f this', replace_rows f w'))"
proof -
  let ?L = "replace_cached f this" and ?W = "replace_rows f w"
  have e: "cacheExpiry ?L = cacheExpiry this"
    and c: "rulesCache ?L tenantId = map_option (map f) (rulesCache this tenantId)"
    by (simp_all add: replace_cached_def)
  have w: "clock ?W = clock w" "clock_reads ?W = clock_reads w" "faults ?W = faults w"
    "io_calls ?W = io_calls w" "db_rows ?W tenantId = map f (db_rows w tenantId)"
    by (simp_all add: replace_rows_def)
  show ?thesis
  proof (cases "\<exists>expiry cached. cacheExpiry this tenantId = Some expiry
                  \<and> rulesCache this tenantId = Some cached \<and> clock w (clock_reads w) < expiry")
    case True
    then obtain expiry cached where h: "cacheExpiry this tenantId = Some expiry"
      "rulesCache this tenantId = Some cached" "clock w (clock_reads w) < expiry"
      by blast
    have "loadRulesForTenant ?L tenantId ?W
        = (Inr (map f cached), ?L, ?W\<lparr>clock_reads := Suc (clock_reads ?W)\<rparr>)"
      using loadRulesForTenant_hit [of ?L tenantId expiry "map f cached" ?W]
      by (simp add: e c w h)
    moreover have "loadRulesForTenant this tenantId w
        = (Inr cached, this, w\<lparr>clock_reads := Suc (clock_reads w)\<rparr>)"
      using loadRulesForTenant_hit [of this tenantId expiry cached w]
      by (simp add: h)
    ultimately show ?thesis
      by (simp add: replace_rows_def)
  next
    case False
    then have m: "cacheExpiry this tenantId = None \<or> rulesCache this tenantId = None
           \<or> (\<exists>expiry. cacheExpiry this tenantId = Some expiry \<and> expiry \<le> clock w (clock_reads w))"
      by (cases "cacheExpiry this tenantId"; cases "rulesCache this tenantId") (auto simp add: not_less)
    then have m': "cacheExpiry ?L tenantId = None \<or> rulesCache ?L tenantId = None
           \<or> (\<exists>expiry. cacheExpiry ?L tenantId = Some expiry \<and> expiry \<le> clock ?W (clock_reads ?W))"
      by (simp add: e c w)
    show ?thesis
      unfolding loadRulesForTenant_miss [OF m] loadRulesForTenant_miss [OF m']
      by (simp add: w e replace_cached_update) (simp add: replace_rows_def)
  qed
qed

lemma checkRateLimit_final_world:
  assumes "loadRulesForTenant this tenantId w = (Inr rules, this1, w1)"
  shows "snd (snd (checkRateLimit this tenantId ipAddress apiUrl w))
           = snd (rules_loop (evaluation_order rules) tenantId ipAddress apiUrl w1)"
  by (simp add: checkRateLimit_by_rules_loop [OF assms] split: prod.splits sum.splits option.splits)

lemma rules_loop_reached_log:
  assumes "applicable r apiUrl"
  shows "\<exists>cmds. redis_log (snd (rules_loop (r # post) tenantId ipAddress apiUrl wp))
           = redis_log wp @ INCR (redisKey_of tenantId r (identifier_of r ipAddress apiUrl)
                                    (window_at wp (clock_reads wp) (window_seconds r))) # cmds"
proof -
  let ?key = "redisKey_of tenantId r (identifier_of r ipAddress apiUrl)
                (window_at wp (clock_reads wp) (window_seconds r))"
  obtain res wr where c: "checkRule r tenantId ipAddress apiUrl wp = (res, wr)"
    by (cases "checkRule r tenantId ipAddress apiUrl wp")
  from checkRule_log [OF c refl] obtain rest where l: "redis_log wr = redis_log wp @ INCR ?key # rest"
    by auto
  obtain lres wf where t: "rules_loop post tenantId ipAddress apiUrl wr = (lres, wf)"
    by (cases "rules_loop post tenantId ipAddress apiUrl wr")
  from rules_loop_keys [OF t] obtain cmds where g: "redis_log wf = redis_log wr @ cmds"
    by blast
  have "snd (rules_loop (r # post) tenantId ipAddress apiUrl wp) = wr
      \<or> snd (rules_loop (r # post) tenantId ipAddress apiUrl wp) = wf"
    using c t by (cases res) (simp_all add: rules_loop_check [OF assms] del: rules_loop.simps)
  then show ?thesis
  proof
    assume "snd (rules_loop (r # post) tenantId ipAddress apiUrl wp) = wr"
    with l show ?thesis by simp
  next
    assume "snd (rules_loop (r # post) tenantId ipAddress apiUrl wp) = wf"
    with l g have "redis_log (snd (rules_loop (r # post) tenantId ipAddress apiUrl wp))
        = redis_log wp @ INCR ?key # (rest @ cmds)"
      by simp
    then show ?thesis by blast
  qed
qed

lemma checkRateLimit_replace:
  assumes "\<And>x. rule_type (f x) = rule_type x"
    and "\<And>x. applicable (f x) apiUrl = applicable x apiUrl"
    and "\<And>x v. checkRule (f x) tenantId ipAddress apiUrl v = checkRule x tenantId ipAddress apiUrl v"
  shows "checkRateLimit (replace_cached f this) tenantId ipAddress apiUrl (replace_rows f w) =
     (case checkRateLimit this tenantId ipAddress apiUrl w of
        (d, this', w') \<Rightarrow> (d, replace_cached f this', replace_rows f w'))"
proof -
  obtain res this1 w1 where l: "loadRulesForTenant this tenantId w = (res, this1, w1)"
    by (cases "loadRulesForTenant this tenantId w")
  then have l': "loadRulesForTenant (replace_cached f this) tenantId (replace_rows f w)
      = (map_sum id (map f) res, replace_cached f this1, replace_rows f w1)"
    by (simp add: loadRulesForTenant_replace)
  show ?thesis
  proof (cases res)
    case (Inl e)
    with l l' show ?thesis
      by (simp add: checkRateLimit_def checkRateLimit_try_def)
  next
    case (Inr rules)
    obtain lres w2 where t: "rules_loop (evaluation_order rules) tenantId ipAddress apiUrl w1 = (lres, w2)"
      by (cases "rules_loop (evaluation_order rules) tenantId ipAddress apiUrl w1")
    have rows: "db_rows w2 = db_rows w1"
      using rules_loop_db_rows [OF t] .
    have "rules_loop (evaluation_order (map f rules)) tenantId ipAddress apiUrl (replace_rows f w1)
        = rules_loop (evaluation_order rules) tenantId ipAddress apiUrl (replace_rows f w1)"
      unfolding evaluation_order_map [of f, OF assms(1)]
      by (rule rules_loop_map) (simp add: assms)
    also have "\<dots> = (lres, w2\<lparr>db_rows := (\<lambda>t. map f (db_rows w1 t))\<rparr>)"
      unfolding replace_rows_def by (simp only: rules_loop_rows t prod.case)
    also have "\<dots> = (lres, replace_rows f w2)"
      by (simp add: replace_rows_def rows)
    finally have t': "rules_loop (evaluation_order (map f rules)) tenantId ipAddress apiUrl (replace_rows f w1)
        = (lres, replace_rows f w2)" .
    from l Inr have a: "loadRulesForTenant this tenantId w = (Inr rules, this1, w1)" by simp
    from l' Inr have b: "loadRulesForTenant (replace_cached f this) tenantId (replace_rows f w)
        = (Inr (map f rules), replace_cached f this1, replace_rows f w1)" by simp
    show ?thesis
      unfolding checkRateLimit_by_rules_loop [OF a] checkRateLimit_by_rules_loop [OF b] t t'
      by (simp split: sum.splits option.splits)
  qed
qed

text \<open>
  Claim C10, as amended. Let \<open>r\<close> be a rule of kind API whose \<^verbatim>\<open>api_pattern\<close> is null, in
  the tenant's list as loaded, and let the call supply a non-empty target identifier \<open>u\<close>.
  If every applicable rule evaluated before \<open>r\<close> passes, \<open>checkRateLimit\<close> does not skip
  \<open>r\<close>: right after those rules it sends INCR for the key
  \<^verbatim>\<open>rate_limit:{tenantId}:API:{u}:{window}\<close>, which raises that counter by one when the store
  accepts the command, and when the check of \<open>r\<close> finds the limit exceeded it returns that
  denial. With any non-empty pattern that matches \<open>u\<close> put in place of the null pattern,
  in the cache and in the rule store, \<open>checkRateLimit\<close> returns the same decision and
  leaves the same environment and cache, up to that replacement.
\<close>

theorem null_pattern_rule_checked:
  assumes "rule_type r = API" and "api_pattern r = None" and "u \<noteq> []"
    and "loadRulesForTenant this tenantId w = (Inr rules, this1, w1)"
    and "filter (\<lambda>rule. rule_type rule = GENERAL) rules
          @ filter (\<lambda>rule. rule_type rule = IP) rules
          @ filter (\<lambda>rule. rule_type rule = API) rules = pre @ r # post"
    and "all_pass pre tenantId ipAddress (Some u) w1 = Some wp"
    and "key = ''rate_limit:'' @ tenantId @ '':API:'' @ u @ '':''
                 @ show_int (window_at wp (clock_reads wp) (window_seconds r))"
  shows "(\<exists>cmds. redis_log (snd (snd (checkRateLimit this tenantId ipAddress (Some u) w)))
                   = redis_log wp @ INCR key # cmds)
         \<and> (\<not> faults wp (io_calls wp) \<longrightarrow>
              redis_kv (snd (checkRule r tenantId ipAddress (Some u) wp)) key
                = Some ((case redis_kv wp key of None \<Rightarrow> 0 | Some v \<Rightarrow> v) + 1))
         \<and> (\<forall>d w'. checkRule r tenantId ipAddress (Some u) wp = (Inr d, w') \<and> \<not> allowed d \<longrightarrow>
              checkRateLimit this tenantId ipAddress (Some u) w = (d, this1, w'))
         \<and> (\<forall>p. p \<noteq> [] \<and> matchesPattern u p = Inr True \<longrightarrow>
              checkRateLimit (replace_cached (with_pattern r p) this) tenantId ipAddress (Some u)
                  (replace_rows (with_pattern r p) w)
                = (case checkRateLimit this tenantId ipAddress (Some u) w of
                     (d, this', w') \<Rightarrow>
                       (d, replace_cached (with_pattern r p) this', replace_rows (with_pattern r p) w')))"
proof (intro conjI allI impI)
  have app: "applicable r (Some u)"
    using assms(1,2,3) by (simp add: applicable_def falsy_def)
  have k: "key = redisKey_of tenantId r (identifier_of r ipAddress (Some u))
                 (window_at wp (clock_reads wp) (window_seconds r))"
    using assms(1,3,7) by (simp add: redisKey_of_def identifier_of_def)
  have o: "evaluation_order rules = pre @ r # post"
    using assms(5) by (simp add: evaluation_order_def)
  have pre: "rules_loop pre tenantId ipAddress (Some u) w1 = (Inr None, wp)"
    using assms(6) by (simp add: all_pass_rules_loop)
  have "rules_loop (evaluation_order rules) tenantId ipAddress (Some u) w1
      = rules_loop (r # post) tenantId ipAddress (Some u) wp"
    unfolding o by (simp add: rules_loop_append pre del: rules_loop.simps)
  then have "snd (snd (checkRateLimit this tenantId ipAddress (Some u) w))
      = snd (rules_loop (r # post) tenantId ipAddress (Some u) wp)"
    by (simp only: checkRateLimit_final_world [OF assms(4)])
  with rules_loop_reached_log [OF app, of post tenantId ipAddress wp]
  show "\<exists>cmds. redis_log (snd (snd (checkRateLimit this tenantId ipAddress (Some u) w)))
                   = redis_log wp @ INCR key # cmds"
    unfolding k by simp
  show "redis_kv (snd (checkRule r tenantId ipAddress (Some u) wp)) key
                = Some ((case redis_kv wp key of None \<Rightarrow> 0 | Some v \<Rightarrow> v) + 1)"
    if "\<not> faults wp (io_calls wp)"
    using that unfolding k
    by (auto simp add: checkRule_def getCurrentWindow_def Date_now_def incrementCounter_def
        redis_incr_def redis_expire_def window_at_def Let_def split: if_splits)
  show "checkRateLimit this tenantId ipAddress (Some u) w = (d, this1, w')"
    if "checkRule r tenantId ipAddress (Some u) wp = (Inr d, w') \<and> \<not> allowed d" for d w'
    using that checkRateLimit_stops [OF assms(4) o assms(6) app] by blast
  show "checkRateLimit (replace_cached (with_pattern r p) this) tenantId ipAddress (Some u)
                  (replace_rows (with_pattern r p) w)
                = (case checkRateLimit this tenantId ipAddress (Some u) w of
                     (d, this', w') \<Rightarrow>
                       (d, replace_cached (with_pattern r p) this', replace_rows (with_pattern r p) w'))"
    if "p \<noteq> [] \<and> matchesPattern u p = Inr True" for p
  proof (rule checkRateLimit_replace)
    fix x
    show "rule_type (with_pattern r p x) = rule_type x"
      by (simp add: with_pattern_def)
    show "applicable (with_pattern r p x) (Some u) = applicable x (Some u)"
      using app assms(1,3) that by (simp add: with_pattern_def applicable_def falsy_def)
    show "checkRule (with_pattern r p x) tenantId ipAddress (Some u) v
        = checkRule x tenantId ipAddress (Some u) v" for v
      by (simp add: with_pattern_def checkRule_api_pattern)
  qed
qed

lemma null_load:
  "loadRulesForTenant empty_limiter ''T'' null_pattern_world
     = (Inr [api_rule 2 60 None], null_cache, null_loaded)"
  by (simp add: run_defs empty_limiter_def null_pattern_world_def quiet_world_def null_cache_def
      null_loaded_def)

lemma null_check:
  "checkRule (api_rule 2 60 None) ''T'' ''1.2.3.4'' (Some ''/x'') null_loaded = (Inr api_denial, null_denied)"
  by (simp add: run_defs null_loaded_def null_denied_def null_pattern_world_def quiet_world_def
      api_rule_def api_denial_def show_int_examples)

theorem null_pattern_rule_checked_witness:
  "checkRateLimit empty_limiter ''T'' ''1.2.3.4'' (Some ''/x'') null_pattern_world
     = (\<lparr>allowed = False, result_limit = Some 2, remaining = Some 0, resetTime = Some 120,
         message = Some ''Rate limit exceeded for API rule. Limit: 2 requests per 60s''\<rparr>,
        null_cache, null_denied)
   \<and> redis_log null_denied = [INCR ''rate_limit:T:API:/x:1'']
   \<and> redis_kv null_denied ''rate_limit:T:API:/x:1'' = Some 3
   \<and> db_rows (replace_rows (with_pattern (api_rule 2 60 None) ''/*'') null_pattern_world) ''T''
       = [api_rule 2 60 (Some ''/*'')]
   \<and> checkRateLimit (replace_cached (with_pattern (api_rule 2 60 None) ''/*'') empty_limiter)
         ''T'' ''1.2.3.4'' (Some ''/x'')
         (replace_rows (with_pattern (api_rule 2 60 None) ''/*'') null_pattern_world)
       = (\<lparr>allowed = False, result_limit = Some 2, remaining = Some 0, resetTime = Some 120,
           message = Some ''Rate limit exceeded for API rule. Limit: 2 requests per 60s''\<rparr>,
          replace_cached (with_pattern (api_rule 2 60 None) ''/*'') null_cache,
          replace_rows (with_pattern (api_rule 2 60 None) ''/*'') null_denied)"
proof -
  have t: "rule_type (api_rule 2 60 None) = API" and n: "api_pattern (api_rule 2 60 None) = None"
    by (simp_all add: api_rule_def)
  have u: "''/x'' \<noteq> []" by simp
  have o: "filter (\<lambda>rule. rule_type rule = GENERAL) [api_rule 2 60 None]
          @ filter (\<lambda>rule. rule_type rule = IP) [api_rule 2 60 None]
          @ filter (\<lambda>rule. rule_type rule = API) [api_rule 2 60 None] = [] @ api_rule 2 60 None # []"
    by (simp add: api_rule_def)
  have p: "all_pass [] ''T'' ''1.2.3.4'' (Some ''/x'') null_loaded = Some null_loaded"
    by simp
  have k: "''rate_limit:T:API:/x:1'' = ''rate_limit:'' @ ''T'' @ '':API:'' @ ''/x'' @ '':''
       @ show_int (window_at null_loaded (clock_reads null_loaded) (window_seconds (api_rule 2 60 None)))"
    by (simp add: window_at_def null_loaded_def null_pattern_world_def quiet_world_def api_rule_def
        show_int_examples)
  note th = null_pattern_rule_checked [OF t n u null_load o p k]
  have den: "\<not> allowed api_denial"
    by (simp add: api_denial_def)
  from th null_check den
  have a: "checkRateLimit empty_limiter ''T'' ''1.2.3.4'' (Some ''/x'') null_pattern_world
      = (api_denial, null_cache, null_denied)"
    by blast
  have m: "''/*'' \<noteq> [] \<and> matchesPattern ''/x'' ''/*'' = Inr True"
    by code_simp
  from th m
  have "checkRateLimit (replace_cached (with_pattern (api_rule 2 60 None) ''/*'') empty_limiter)
         ''T'' ''1.2.3.4'' (Some ''/x'')
         (replace_rows (with_pattern (api_rule 2 60 None) ''/*'') null_pattern_world)
       = (case checkRateLimit empty_limiter ''T'' ''1.2.3.4'' (Some ''/x'') null_pattern_world of
            (d, this', w') \<Rightarrow>
              (d, replace_cached (with_pattern (api_rule 2 60 None) ''/*'') this',
               replace_rows (with_pattern (api_rule 2 60 None) ''/*'') w'))"
    by blast
  then have b: "checkRateLimit (replace_cached (with_pattern (api_rule 2 60 None) ''/*'') empty_limiter)
         ''T'' ''1.2.3.4'' (Some ''/x'')
         (replace_rows (with_pattern (api_rule 2 60 None) ''/*'') null_pattern_world)
       = (api_denial, replace_cached (with_pattern (api_rule 2 60 None) ''/*'') null_cache,
          replace_rows (with_pattern (api_rule 2 60 None) ''/*'') null_denied)"
    by (simp only: a prod.case)
  have c: "redis_log null_denied = [INCR ''rate_limit:T:API:/x:1'']"
    and d: "redis_kv null_denied ''rate_limit:T:API:/x:1'' = Some 3"
    by (simp_all add: null_denied_def)
  have e: "db_rows (replace_rows (with_pattern (api_rule 2 60 None) ''/*'') null_pattern_world) ''T''
       = [api_rule 2 60 (Some ''/*'')]"
    by (simp add: replace_rows_def with_pattern_def null_pattern_world_def quiet_world_def api_rule_def)
  from a b c d e show ?thesis
    by (simp only: api_denial_def simp_thms)
qed

text \<open>
  Claim C10 as it is written fails for the empty string as target identifier: the rule
  without a pattern is skipped, although its counter is used up; the request is allowed
  and no command is sent.
\<close>

theorem empty_target_skipped_counterexample:
  "checkRateLimit empty_limiter ''T'' ''1.2.3.4'' (Some []) null_pattern_world
     = (\<lparr>allowed = True, result_limit = None, remaining = None, resetTime = None, message = None\<rparr>,
        null_cache, null_loaded)
   \<and> redis_log null_loaded = []
   \<and> redis_kv null_loaded ''rate_limit:T:API::1'' = None
   \<and> redis_kv null_loaded = redis_kv null_pattern_world"
  by (simp add: checkRateLimit_def checkRateLimit_try_def run_defs empty_limiter_def
      null_pattern_world_def quiet_world_def null_cache_def null_loaded_def api_rule_def)

end
